theory Spec2Isabelle
  imports Main "HOL-Library.Multiset"
begin

section \<open>Data model\<close>

text \<open>
  The driver identifiers of the wrapped core library (\<open>DriverType\<close>). The enumeration is
  declared in the external package; the members are the ones the repository names
  (\<open>sms.config.ts\<close> switches over them). \<open>driver_name\<close> gives the string value of each
  member: the tests of the repository state four of them, and \<open>ippanel\<close> is the key under
  which \<open>sms.config.ts\<close> stores the configuration of that driver.
\<close>

datatype DriverType = KAVENEGAR | SMSIR | MELIPAYAMAK | IPPANEL | MOCK

fun driver_name :: "DriverType \<Rightarrow> string" where
  "driver_name KAVENEGAR = ''kavenegar''"
| "driver_name SMSIR = ''smsir''"
| "driver_name MELIPAYAMAK = ''melipayamak''"
| "driver_name IPPANEL = ''ippanel''"
| "driver_name MOCK = ''mock''"

text \<open>
  \<open>ISmsMessage\<close> and \<open>ISmsResponse\<close>, with the fields the repository reads and writes.
  An absent optional field is \<open>None\<close>. Token values (\<open>unknown\<close> in the source) are strings.
\<close>

record ISmsMessage =
  to :: string
  template :: string
  tokens :: "(string \<times> string) list"
  driver :: "DriverType option"

record ISmsResponse =
  success :: bool
  messageId :: "string option"
  error :: "string option"
  errorCode :: "string option"

text \<open>
  A thrown value. The source tells three kinds apart: \<open>error instanceof SmsException\<close> (a
  subclass of \<open>Error\<close>, with its message and its \<open>_code\<close>), \<open>error instanceof Error\<close> (with
  its message), and anything else, of which it reads only \<open>String(error)\<close>. A value of the
  last two kinds may have a \<open>code\<close> property of its own, as the errors of the platform and
  of HTTP clients do; the source never reads it.
\<close>

datatype thrown =
    SmsException string string
  | PlainError string "string option"
  | NonError string "string option"

text \<open>\<open>error instanceof Error ? error.message : String(error)\<close>\<close>

fun message_of :: "thrown \<Rightarrow> string" where
  "message_of (SmsException msg code) = msg"
| "message_of (PlainError msg own) = msg"
| "message_of (NonError s own) = s"

text \<open>\<open>error instanceof SmsException ? error._code : 'UNKNOWN_ERROR'\<close>\<close>

fun code_of :: "thrown \<Rightarrow> string" where
  "code_of (SmsException msg code) = code"
| "code_of (PlainError msg own) = ''UNKNOWN_ERROR''"
| "code_of (NonError s own) = ''UNKNOWN_ERROR''"

section \<open>Effects\<close>

text \<open>
  Everything the three components do to the outside world is recorded in a trace:
  \<open>Call m\<close> when the send capability (\<open>coreService.verify\<close>) is invoked with message \<open>m\<close>,
  \<open>Settle k\<close> when the batch promise of input message \<open>k\<close> is seen settled by the bulk
  dispatcher, \<open>Delay ms\<close> when \<open>delay(ms)\<close> is awaited. Logging is left out.
\<close>

datatype event = Call ISmsMessage | Settle nat | Delay nat

type_synonym trace = "event list"

fun calls :: "trace \<Rightarrow> ISmsMessage list" where
  "calls [] = []"
| "calls (Call m # tr) = m # calls tr"
| "calls (Settle k # tr) = calls tr"
| "calls (Delay ms # tr) = calls tr"

definition ncalls :: "trace \<Rightarrow> nat" where
  "ncalls tr = length (calls tr)"

text \<open>
  The send capability is external and stateful. On a given run it is an oracle: the outcome
  of its \<open>n\<close>-th invocation (counted from 0) on message \<open>m\<close> is \<open>core n m\<close>, either a thrown
  value or a response.
\<close>

type_synonym capability = "nat \<Rightarrow> ISmsMessage \<Rightarrow> thrown + ISmsResponse"

text \<open>
  \<open>SmsService.verify\<close>: awaits the core service, logs, and returns the response or rethrows
  the error unchanged.
\<close>

definition verify :: "capability \<Rightarrow> ISmsMessage \<Rightarrow> trace \<Rightarrow> (thrown + ISmsResponse) \<times> trace" where
  "verify core message tr =
     (case core (ncalls tr) message of
        Inr response \<Rightarrow> (Inr response, tr @ [Call message])
      | Inl err \<Rightarrow> (Inl err, tr @ [Call message]))"

section \<open>RetryingSender: \<open>NotificationService.sendOtpWithRetry\<close>\<close>

text \<open>\<open>error instanceof Error ? error : new Error(String(error))\<close>\<close>

fun as_Error :: "thrown \<Rightarrow> thrown" where
  "as_Error (SmsException msg code) = SmsException msg code"
| "as_Error (PlainError msg own) = PlainError msg own"
| "as_Error (NonError s own) = PlainError s None"

definition delay :: "nat \<Rightarrow> trace \<Rightarrow> trace" where
  "delay ms tr = tr @ [Delay ms]"

function retry_loop ::
  "capability \<Rightarrow> ISmsMessage \<Rightarrow> int \<Rightarrow> int \<Rightarrow> thrown option \<Rightarrow> trace
     \<Rightarrow> (thrown + ISmsResponse) \<times> trace" where
  "retry_loop core message maxRetries attempt lastError tr =
     (if attempt \<le> maxRetries then
        (case verify core message tr of
           (Inr response, tr1) \<Rightarrow>
             (if success response then (Inr response, tr1) else (Inr response, tr1))
         | (Inl err, tr1) \<Rightarrow>
             retry_loop core message maxRetries (attempt + 1) (Some (as_Error err))
               (if attempt < maxRetries then delay (2 ^ nat attempt * 1000) tr1 else tr1))
      else
        (Inl (case lastError of Some e \<Rightarrow> e | None \<Rightarrow> PlainError ''All retry attempts failed'' None),
         tr))"
  by pat_completeness auto
termination
  by (relation "measure (\<lambda>(core, message, maxRetries, attempt, lastError, tr).
        nat (maxRetries + 1 - attempt))") auto

declare retry_loop.simps [simp del]

text \<open>
  The message built at every attempt, and the function itself; the parameter default
  \<open>maxRetries = 3\<close> applies when the argument is absent.
\<close>

definition otp_message :: "string \<Rightarrow> string \<Rightarrow> DriverType option \<Rightarrow> ISmsMessage" where
  "otp_message phoneNumber code drv =
     \<lparr>to = phoneNumber, template = ''otp-verification'', tokens = [(''code'', code)],
      driver = drv\<rparr>"

definition sendOtpWithRetry ::
  "capability \<Rightarrow> string \<Rightarrow> string \<Rightarrow> int option \<Rightarrow> DriverType option \<Rightarrow> trace
     \<Rightarrow> (thrown + ISmsResponse) \<times> trace" where
  "sendOtpWithRetry core phoneNumber code maxRetries drv tr =
     retry_loop core (otp_message phoneNumber code drv)
       (case maxRetries of None \<Rightarrow> 3 | Some n \<Rightarrow> n) 1 None tr"

section \<open>FallbackSender: \<open>NotificationService.sendWithFallback\<close>\<close>

text \<open>
  The configuration queries of \<open>SmsService\<close> that the fallback sender consumes. They
  delegate to the external core service and are taken as given.
\<close>

record DriverQueries =
  getDefaultDriver :: DriverType
  isDriverAvailable :: "DriverType \<Rightarrow> bool"
  getAvailableDrivers :: "DriverType list"

text \<open>
  JavaScript truthiness of a driver identifier (a string is falsy only when empty), and
  \<open>x || y\<close> for an optional identifier \<open>x\<close>.
\<close>

definition truthy :: "DriverType \<Rightarrow> bool" where
  "truthy d = (driver_name d \<noteq> [])"

definition or_else :: "DriverType option \<Rightarrow> DriverType \<Rightarrow> DriverType" where
  "or_else x y = (case x of None \<Rightarrow> y | Some d \<Rightarrow> if truthy d then d else y)"

definition getAlternativeDriver :: "DriverQueries \<Rightarrow> DriverType option \<Rightarrow> DriverType" where
  "getAlternativeDriver cfg currentDriver =
     (let available = getAvailableDrivers cfg;
          alternatives = filter (\<lambda>d. Some d \<noteq> currentDriver) available
      in or_else (case alternatives of [] \<Rightarrow> None | d # _ \<Rightarrow> Some d) MOCK)"

text \<open>The list \<open>drivers\<close> built at the head of \<open>sendWithFallback\<close>.\<close>

definition drivers :: "DriverQueries \<Rightarrow> DriverType option \<Rightarrow> DriverType option \<Rightarrow> DriverType list" where
  "drivers cfg primaryDriver fallbackDriver =
     filter truthy
       [or_else primaryDriver (getDefaultDriver cfg),
        or_else fallbackDriver (getAlternativeDriver cfg primaryDriver)]"

definition fallback_message ::
  "string \<Rightarrow> string \<Rightarrow> (string \<times> string) list \<Rightarrow> DriverType \<Rightarrow> ISmsMessage" where
  "fallback_message phoneNumber tmpl toks d =
     \<lparr>to = phoneNumber, template = tmpl, tokens = toks, driver = Some d\<rparr>"

definition all_failed :: ISmsResponse where
  "all_failed =
     \<lparr>success = False, messageId = None, error = Some ''All drivers failed or unavailable'',
      errorCode = None\<rparr>"

text \<open>
  The \<open>for (const driver of drivers)\<close> loop with its \<open>try\<close>/\<open>catch\<close>: an unavailable driver
  is skipped, a thrown error is logged and swallowed, an unsuccessful response is
  remembered in \<open>lastResponse\<close>, a successful one is returned.
\<close>

fun fallback_loop ::
  "DriverQueries \<Rightarrow> capability \<Rightarrow> (DriverType \<Rightarrow> ISmsMessage) \<Rightarrow> DriverType list
     \<Rightarrow> ISmsResponse option \<Rightarrow> trace \<Rightarrow> ISmsResponse \<times> trace" where
  "fallback_loop cfg core mk [] lastResponse tr =
     (case lastResponse of Some response \<Rightarrow> (response, tr) | None \<Rightarrow> (all_failed, tr))"
| "fallback_loop cfg core mk (d # ds) lastResponse tr =
     (if \<not> isDriverAvailable cfg d then fallback_loop cfg core mk ds lastResponse tr
      else
        (case verify core (mk d) tr of
           (Inr response, tr1) \<Rightarrow>
             (if success response then (response, tr1)
              else fallback_loop cfg core mk ds (Some response) tr1)
         | (Inl err, tr1) \<Rightarrow> fallback_loop cfg core mk ds lastResponse tr1))"

definition sendWithFallback ::
  "DriverQueries \<Rightarrow> capability \<Rightarrow> string \<Rightarrow> string \<Rightarrow> (string \<times> string) list
     \<Rightarrow> DriverType option \<Rightarrow> DriverType option \<Rightarrow> trace \<Rightarrow> ISmsResponse \<times> trace" where
  "sendWithFallback cfg core phoneNumber tmpl toks primaryDriver fallbackDriver tr =
     fallback_loop cfg core (fallback_message phoneNumber tmpl toks)
       (drivers cfg primaryDriver fallbackDriver) None tr"

section \<open>BulkDispatcher: \<open>SmsService.verifyBulk\<close>\<close>

record BulkOptions =
  opt_concurrency :: "nat option"
  opt_failFast :: "bool option"

text \<open>\<open>messages.slice(start, end)\<close> for indices within the non-negative integers.\<close>

definition slice :: "'a list \<Rightarrow> nat \<Rightarrow> nat \<Rightarrow> 'a list" where
  "slice xs start end = take (end - start) (drop start xs)"

text \<open>
  \<open>results[index] = response\<close> on a JavaScript array: a write past the end extends the
  array and leaves holes (\<open>None\<close>) in between.
\<close>

definition array_set :: "'a option list \<Rightarrow> nat \<Rightarrow> 'a \<Rightarrow> 'a option list" where
  "array_set xs index v =
     (if index < length xs then xs[index := Some v]
      else xs @ replicate (index - length xs) None @ [Some v])"

definition errorResponse :: "thrown \<Rightarrow> ISmsResponse" where
  "errorResponse err =
     \<lparr>success = False, messageId = None, error = Some (message_of err),
      errorCode = Some (code_of err)\<rparr>"

text \<open>
  How the promise of one batch member settles, given the outcome of its \<open>verify\<close>: the body
  of the \<open>async (message, index) => ...\<close> callback after the \<open>await\<close>, where \<open>index\<close> is
  already the position \<open>i + index\<close> in the input.
\<close>

definition batch_promise ::
  "bool \<Rightarrow> nat \<Rightarrow> thrown + ISmsResponse \<Rightarrow> thrown + nat \<times> ISmsResponse" where
  "batch_promise failFast index outcome =
     (case outcome of
        Inr response \<Rightarrow> Inr (index, response)
      | Inl err \<Rightarrow> if failFast then Inl err else Inr (index, errorResponse err))"

text \<open>
  \<open>batch.map(async (message, index) => ...)\<close>: the callback is invoked for each message
  in order, and every invocation runs up to its \<open>await\<close>, that is, it invokes the send
  capability, before \<open>map\<close> moves on. So all sends of the batch are started here, before
  anything is awaited.
\<close>

fun batchPromises ::
  "capability \<Rightarrow> bool \<Rightarrow> nat \<Rightarrow> ISmsMessage list \<Rightarrow> nat \<Rightarrow> trace
     \<Rightarrow> (thrown + nat \<times> ISmsResponse) list \<times> trace" where
  "batchPromises core failFast i [] index tr = ([], tr)"
| "batchPromises core failFast i (message # rest) index tr =
     (case verify core message tr of
        (outcome, tr1) \<Rightarrow>
          (case batchPromises core failFast i rest (index + 1) tr1 of
             (promises, tr2) \<Rightarrow> (batch_promise failFast (i + index) outcome # promises, tr2)))"

text \<open>
  The order in which the promises of a batch settle is not fixed by the program. It is a
  parameter: \<open>rank k\<close> is the completion time of the send of input message \<open>k\<close>, and the
  members \<open>i, ..., i + n - 1\<close> of a batch settle by increasing rank (by index among equal
  ranks). Every permutation of a batch is the settle order of some \<open>rank\<close>.
\<close>

definition settle_order :: "(nat \<Rightarrow> nat) \<Rightarrow> nat \<Rightarrow> nat \<Rightarrow> nat list" where
  "settle_order rank i n = sort_key rank [i..<i + n]"

text \<open>
  \<open>await Promise.all(promises)\<close> for the batch that starts at input position \<open>i\<close>: it
  rejects with the reason of the first promise that rejects, as soon as that one has
  settled, and otherwise fulfils with all values in the order of \<open>promises\<close> once every
  promise has settled.
\<close>

definition promise_all ::
  "(nat \<Rightarrow> nat) \<Rightarrow> nat \<Rightarrow> ('e + 'a) list \<Rightarrow> trace \<Rightarrow> ('e + 'a list) \<times> trace" where
  "promise_all rank i promises tr =
     (let order = settle_order rank i (length promises) in
      case find (\<lambda>k. isl (promises ! (k - i))) order of
        None \<Rightarrow> (Inr (map projr promises), tr @ map Settle order)
      | Some k \<Rightarrow>
          (Inl (projl (promises ! (k - i))),
           tr @ map Settle (takeWhile (\<lambda>j. \<not> isl (promises ! (j - i))) order @ [k])))"

text \<open>\<open>batchResults.forEach(({ index, response }) => { results[index] = response; })\<close>\<close>

definition place_results ::
  "(nat \<times> ISmsResponse) list \<Rightarrow> ISmsResponse option list \<Rightarrow> ISmsResponse option list" where
  "place_results batchResults results =
     fold (\<lambda>(index, response) rs. array_set rs index response) batchResults results"

text \<open>
  The \<open>for (let i = 0; i < messages.length; i += concurrency)\<close> loop. With
  \<open>concurrency = 0\<close> and a non-empty input it never ends, so the result is optional:
  \<open>None\<close> is a call that does not return. \<open>Some (Inl err, tr)\<close> is a call that throws
  \<open>err\<close>, \<open>Some (Inr results, tr)\<close> one that returns the array \<open>results\<close>.
\<close>

partial_function (option) bulk_loop ::
  "capability \<Rightarrow> (nat \<Rightarrow> nat) \<Rightarrow> nat \<Rightarrow> bool \<Rightarrow> ISmsMessage list \<Rightarrow> nat
     \<Rightarrow> ISmsResponse option list \<Rightarrow> trace
     \<Rightarrow> ((thrown + ISmsResponse option list) \<times> trace) option" where
  "bulk_loop core rank concurrency failFast messages i results tr =
     (if i < length messages then
        (case batchPromises core failFast i (slice messages i (i + concurrency)) 0 tr of
           (promises, tr1) \<Rightarrow>
             (case promise_all rank i promises tr1 of
                (Inr batchResults, tr2) \<Rightarrow>
                  bulk_loop core rank concurrency failFast messages (i + concurrency)
                    (place_results batchResults results) tr2
              | (Inl err, tr2) \<Rightarrow>
                  if failFast then Some (Inl err, tr2)
                  else bulk_loop core rank concurrency failFast messages (i + concurrency)
                         results tr2))
      else Some (Inr results, tr))"

declare bulk_loop.simps [code]

text \<open>
  \<open>const { concurrency = 5, failFast = false } = options\<close>: a default applies when the
  option is absent.
\<close>

definition concurrency_of :: "BulkOptions \<Rightarrow> nat" where
  "concurrency_of options = (case opt_concurrency options of None \<Rightarrow> 5 | Some c \<Rightarrow> c)"

definition failFast_of :: "BulkOptions \<Rightarrow> bool" where
  "failFast_of options = (case opt_failFast options of None \<Rightarrow> False | Some b \<Rightarrow> b)"

definition verifyBulk ::
  "capability \<Rightarrow> (nat \<Rightarrow> nat) \<Rightarrow> ISmsMessage list \<Rightarrow> BulkOptions \<Rightarrow> trace
     \<Rightarrow> ((thrown + ISmsResponse option list) \<times> trace) option" where
  "verifyBulk core rank messages options tr =
     bulk_loop core rank (concurrency_of options) (failFast_of options) messages 0 [] tr"

section \<open>Vocabulary of the properties\<close>

text \<open>
  The outcomes of invoking the send capability on the messages \<open>ms\<close> one after the other,
  the first of these invocations being invocation number \<open>n\<close> of the capability.
\<close>

fun seq_outcomes :: "capability \<Rightarrow> nat \<Rightarrow> ISmsMessage list \<Rightarrow> (thrown + ISmsResponse) list" where
  "seq_outcomes core n [] = []"
| "seq_outcomes core n (m # ms) = core n m # seq_outcomes core (Suc n) ms"

text \<open>The responses among a list of outcomes, in order: the sends that did not throw.\<close>

fun returned :: "(thrown + ISmsResponse) list \<Rightarrow> ISmsResponse list" where
  "returned [] = []"
| "returned (Inr response # outs) = response # returned outs"
| "returned (Inl err # outs) = returned outs"


text \<open>
  What the bulk dispatcher records for the outcome of a send when it does not fail fast:
  the response, or the response built from the thrown error.
\<close>

definition recorded :: "thrown + ISmsResponse \<Rightarrow> ISmsResponse" where
  "recorded outcome = (case outcome of Inr response \<Rightarrow> response | Inl err \<Rightarrow> errorResponse err)"

text \<open>
  Batch number \<open>j\<close> of the input (counted from 0) for batch size \<open>c\<close>, the number of batches
  of an input of \<open>n\<close> messages, and the events of a batch that runs to its end: every send
  of the batch is started, then every one of them settles.
\<close>

definition batch_of :: "nat \<Rightarrow> ISmsMessage list \<Rightarrow> nat \<Rightarrow> ISmsMessage list" where
  "batch_of c msgs j = slice msgs (j * c) (j * c + c)"

definition batch_count :: "nat \<Rightarrow> nat \<Rightarrow> nat" where
  "batch_count c n = (n + c - 1) div c"

definition batch_events :: "(nat \<Rightarrow> nat) \<Rightarrow> nat \<Rightarrow> ISmsMessage list \<Rightarrow> nat \<Rightarrow> event list" where
  "batch_events rank c msgs j =
     map Call (batch_of c msgs j) @ map Settle (settle_order rank (j * c) (length (batch_of c msgs j)))"

section \<open>Sample values\<close>

definition rejected :: ISmsResponse where
  "rejected = \<lparr>success = False, messageId = None, error = Some ''rejected'', errorCode = None\<rparr>"

definition accepted :: ISmsResponse where
  "accepted = \<lparr>success = True, messageId = Some ''id-1'', error = None, errorCode = None\<rparr>"

definition sample_message :: "string \<Rightarrow> ISmsMessage" where
  "sample_message phone =
     \<lparr>to = phone, template = ''verify'', tokens = [(''code'', ''123456'')], driver = None\<rparr>"

text \<open>
  A capability that throws a validation exception for an empty recipient, throws an error
  of the transport, which has a code of its own, for the recipient \<open>x\<close>, rejects the
  recipient \<open>0\<close> and accepts every other message.
\<close>

definition sample_core :: capability where
  "sample_core n message =
     (if to message = [] then Inl (SmsException ''Phone number is required'' ''VALIDATION_ERROR'')
      else if to message = ''x'' then Inl (PlainError ''socket hang up'' (Some ''ECONNRESET''))
      else if to message = ''0'' then Inr rejected
      else Inr accepted)"

section \<open>Properties of the trace and of \<open>verify\<close>\<close>

lemma calls_append: "calls (tr @ tr') = calls tr @ calls tr'"
  by (induction tr rule: calls.induct) auto

lemma verify_eq: "verify core m tr = (core (ncalls tr) m, tr @ [Call m])"
  by (simp add: verify_def split: sum.splits)

section \<open>Properties of the retrying sender\<close>

lemma retry_loop_returns:
  "a + int k \<le> n \<Longrightarrow> \<forall>j<k. isl (core (ncalls tr + j) msg) \<Longrightarrow> core (ncalls tr + k) msg = Inr r \<Longrightarrow> 0 \<le> a \<Longrightarrow>
   retry_loop core msg n a lastE tr =
     (Inr r, tr @ concat (map (\<lambda>i. [Call msg, Delay (2 ^ i * 1000)]) [nat a..<nat a + k]) @ [Call msg])"
proof (induction k arbitrary: a lastE tr)
  case 0
  then show ?case by (subst retry_loop.simps) (simp add: verify_eq)
next
  case (Suc k)
  from Suc.prems obtain e where e: "core (ncalls tr) msg = Inl e"
    by (metis add.right_neutral isl_def zero_less_Suc)
  let ?tr = "tr @ [Call msg, Delay (2 ^ nat a * 1000)]"
  have n: "ncalls ?tr = Suc (ncalls tr)" by (simp add: ncalls_def calls_append)
  have lt: "a < n" "a \<le> n" using Suc.prems by auto
  have step: "retry_loop core msg n a lastE tr = retry_loop core msg n (a + 1) (Some (as_Error e)) ?tr"
    using lt e by (subst retry_loop.simps) (simp add: verify_eq delay_def)
  have ih: "retry_loop core msg n (a + 1) (Some (as_Error e)) ?tr =
     (Inr r, ?tr @ concat (map (\<lambda>i. [Call msg, Delay (2 ^ i * 1000)]) [nat (a + 1)..<nat (a + 1) + k]) @ [Call msg])"
    using Suc.prems by (intro Suc.IH) (auto simp: n)
  have nat1: "nat (a + 1) = Suc (nat a)" using Suc.prems by simp
  have upt: "[nat a..<nat a + Suc k] = nat a # [Suc (nat a)..<Suc (nat a) + k]"
    by (simp add: upt_conv_Cons)
  show ?case unfolding step ih nat1 upt by simp
qed

lemma retry_loop_exhausts:
  "a + int k = n \<Longrightarrow> \<forall>j\<le>k. isl (core (ncalls tr + j) msg) \<Longrightarrow> 0 \<le> a \<Longrightarrow>
   retry_loop core msg n a lastE tr =
     (Inl (as_Error (projl (core (ncalls tr + k) msg))),
      tr @ concat (map (\<lambda>i. [Call msg, Delay (2 ^ i * 1000)]) [nat a..<nat a + k]) @ [Call msg])"
proof (induction k arbitrary: a lastE tr)
  case 0
  then obtain e where e: "core (ncalls tr) msg = Inl e" by (auto simp: isl_def)
  have "retry_loop core msg n a lastE tr = retry_loop core msg n (a + 1) (Some (as_Error e)) (tr @ [Call msg])"
    using 0 e by (subst retry_loop.simps) (simp add: verify_eq)
  also have "\<dots> = (Inl (as_Error e), tr @ [Call msg])"
    using 0 by (subst retry_loop.simps) simp
  finally show ?case using e by simp
next
  case (Suc k)
  from Suc.prems obtain e where e: "core (ncalls tr) msg = Inl e"
    by (metis add.right_neutral isl_def le0)
  let ?tr = "tr @ [Call msg, Delay (2 ^ nat a * 1000)]"
  have n: "ncalls ?tr = Suc (ncalls tr)" by (simp add: ncalls_def calls_append)
  have lt: "a < n" "a \<le> n" using Suc.prems by auto
  have step: "retry_loop core msg n a lastE tr = retry_loop core msg n (a + 1) (Some (as_Error e)) ?tr"
    using lt e by (subst retry_loop.simps) (simp add: verify_eq delay_def)
  have ih: "retry_loop core msg n (a + 1) (Some (as_Error e)) ?tr =
     (Inl (as_Error (projl (core (ncalls ?tr + k) msg))), ?tr @ concat (map (\<lambda>i. [Call msg, Delay (2 ^ i * 1000)]) [nat (a + 1)..<nat (a + 1) + k]) @ [Call msg])"
    using Suc.prems by (intro Suc.IH) (auto simp: n)
  have nat1: "nat (a + 1) = Suc (nat a)" using Suc.prems by simp
  have upt: "[nat a..<nat a + Suc k] = nat a # [Suc (nat a)..<Suc (nat a) + k]"
    by (simp add: upt_conv_Cons)
  show ?case unfolding step ih nat1 upt n by simp
qed

text \<open>
  Claim C6. Let \<open>maxRetries \<ge> 1\<close>. If the first attempt returns a response with
  \<open>success = False\<close>, \<open>sendOtpWithRetry\<close> returns that response after exactly one invocation
  of the send capability and without any delay. And if the attempts before attempt \<open>k + 1\<close>
  throw and attempt \<open>k + 1 \<le> maxRetries\<close> returns a response with \<open>success = True\<close>, that
  response is returned at once: the trace ends with that invocation, after the \<open>k\<close> failed
  attempts and their delays.
\<close>

theorem sendOtpWithRetry_returns_response_at_once:
  assumes "1 \<le> n"
  shows "(\<forall>r. core (ncalls tr) (otp_message phone code drv) = Inr r \<and> \<not> success r \<longrightarrow>
            sendOtpWithRetry core phone code (Some n) drv tr
              = (Inr r, tr @ [Call (otp_message phone code drv)]))
       \<and> (\<forall>k r. int k < n
              \<and> (\<forall>j<k. isl (core (ncalls tr + j) (otp_message phone code drv)))
              \<and> core (ncalls tr + k) (otp_message phone code drv) = Inr r \<and> success r \<longrightarrow>
            sendOtpWithRetry core phone code (Some n) drv tr
              = (Inr r,
                 tr @ concat (map (\<lambda>a. [Call (otp_message phone code drv), Delay (2 ^ a * 1000)])
                                [1..<Suc k])
                    @ [Call (otp_message phone code drv)]))"
proof (intro conjI allI impI)
  fix r
  assume "core (ncalls tr) (otp_message phone code drv) = Inr r \<and> \<not> success r"
  then show "sendOtpWithRetry core phone code (Some n) drv tr
              = (Inr r, tr @ [Call (otp_message phone code drv)])"
    using assms retry_loop_returns [of 1 0 n core tr "otp_message phone code drv" r None]
    by (simp add: sendOtpWithRetry_def)
next
  fix k r
  assume "int k < n
              \<and> (\<forall>j<k. isl (core (ncalls tr + j) (otp_message phone code drv)))
              \<and> core (ncalls tr + k) (otp_message phone code drv) = Inr r \<and> success r"
  then show "sendOtpWithRetry core phone code (Some n) drv tr
              = (Inr r,
                 tr @ concat (map (\<lambda>a. [Call (otp_message phone code drv), Delay (2 ^ a * 1000)])
                                [1..<Suc k])
                    @ [Call (otp_message phone code drv)])"
    using retry_loop_returns [of 1 k n core tr "otp_message phone code drv" r None]
    by (simp add: sendOtpWithRetry_def)
qed

theorem sendOtpWithRetry_returns_response_at_once_witness:
  "sendOtpWithRetry (\<lambda>n m. Inr rejected) ''+1'' ''42'' (Some 3) None []
     = (Inr rejected, [Call (otp_message ''+1'' ''42'' None)])
   \<and> sendOtpWithRetry (\<lambda>n m. if n < 2 then Inl (PlainError ''down'' None) else Inr accepted)
        ''+1'' ''42'' (Some 3) None []
     = (Inr accepted,
        [Call (otp_message ''+1'' ''42'' None), Delay 2000,
         Call (otp_message ''+1'' ''42'' None), Delay 4000,
         Call (otp_message ''+1'' ''42'' None)])"
proof
  have "(1::int) \<le> 3" by simp
  from sendOtpWithRetry_returns_response_at_once [OF this, of "\<lambda>n m. Inr rejected" "[]" "''+1''" "''42''" None]
  show "sendOtpWithRetry (\<lambda>n m. Inr rejected) ''+1'' ''42'' (Some 3) None []
     = (Inr rejected, [Call (otp_message ''+1'' ''42'' None)])"
    by (simp add: rejected_def)
next
  have "(1::int) \<le> 3" by simp
  from sendOtpWithRetry_returns_response_at_once [OF this,
      of "\<lambda>n m. if n < 2 then Inl (PlainError ''down'' None) else Inr accepted" "[]" "''+1''" "''42''" None]
  have "\<forall>k r. int k < 3
              \<and> (\<forall>j<k. isl ((\<lambda>n m. if n < 2 then Inl (PlainError ''down'' None) else Inr accepted) (ncalls [] + j) (otp_message ''+1'' ''42'' None)))
              \<and> (\<lambda>n m. if n < 2 then Inl (PlainError ''down'' None) else Inr accepted) (ncalls [] + k) (otp_message ''+1'' ''42'' None) = Inr r \<and> success r \<longrightarrow>
            sendOtpWithRetry (\<lambda>n m. if n < 2 then Inl (PlainError ''down'' None) else Inr accepted) ''+1'' ''42'' (Some 3) None []
              = (Inr r,
                 [] @ concat (map (\<lambda>a. [Call (otp_message ''+1'' ''42'' None), Delay (2 ^ a * 1000)])
                                [1..<Suc k])
                    @ [Call (otp_message ''+1'' ''42'' None)])"
    by blast
  from this [rule_format, of 2 accepted]
  show "sendOtpWithRetry (\<lambda>n m. if n < 2 then Inl (PlainError ''down'' None) else Inr accepted)
        ''+1'' ''42'' (Some 3) None []
     = (Inr accepted,
        [Call (otp_message ''+1'' ''42'' None), Delay 2000,
         Call (otp_message ''+1'' ''42'' None), Delay 4000,
         Call (otp_message ''+1'' ''42'' None)])"
    by (simp add: ncalls_def accepted_def upt_rec)
qed

text \<open>
  Claim C7. Let \<open>maxRetries \<ge> 1\<close>. If every attempt throws, \<open>sendOtpWithRetry\<close> invokes the
  send capability exactly \<open>maxRetries\<close> times, each time with the OTP message for the given
  recipient, awaits \<open>delay (2 ^ attempt * 1000)\<close> after each attempt but the last (attempts
  counted from 1), and throws the error recorded on the last attempt: the value \<open>err\<close> that
  the last attempt threw, unchanged when it is an \<open>Error\<close>, and \<open>new Error(String(err))\<close>,
  an error with that text and no code, otherwise.
\<close>

theorem sendOtpWithRetry_throws_after_maxRetries:
  assumes "1 \<le> n"
    and "\<forall>j. int j < n \<longrightarrow>
           isl (core (ncalls tr + j)
                  \<lparr>to = phone, template = ''otp-verification'', tokens = [(''code'', code)],
                   driver = drv\<rparr>)"
  shows "\<exists>err. core (ncalls tr + (nat n - 1))
                 \<lparr>to = phone, template = ''otp-verification'', tokens = [(''code'', code)],
                  driver = drv\<rparr> = Inl err
           \<and> sendOtpWithRetry core phone code (Some n) drv tr
               = (Inl (case err of
                         SmsException msg c \<Rightarrow> SmsException msg c
                       | PlainError msg own \<Rightarrow> PlainError msg own
                       | NonError s own \<Rightarrow> PlainError s None),
                  tr @ concat (map (\<lambda>a. [Call \<lparr>to = phone, template = ''otp-verification'',
                                                 tokens = [(''code'', code)], driver = drv\<rparr>,
                                           Delay (2 ^ a * 1000)])
                                 [1..<nat n])
                     @ [Call \<lparr>to = phone, template = ''otp-verification'',
                               tokens = [(''code'', code)], driver = drv\<rparr>])
           \<and> ncalls (snd (sendOtpWithRetry core phone code (Some n) drv tr)) = ncalls tr + nat n"
proof -
  let ?msg = "\<lparr>to = phone, template = ''otp-verification'', tokens = [(''code'', code)],
               driver = drv\<rparr>"
  have msg: "otp_message phone code drv = ?msg" by (simp add: otp_message_def)
  have eq: "1 + int (nat n - 1) = n" using assms(1) by simp
  have all: "\<forall>j\<le>nat n - 1. isl (core (ncalls tr + j) ?msg)"
    using assms by auto
  have up: "Suc (nat n - 1) = nat n" using assms(1) by simp
  from all obtain err where err: "core (ncalls tr + (nat n - 1)) ?msg = Inl err"
    by (auto simp: isl_def)
  have wrap: "as_Error err = (case err of
                         SmsException msg c \<Rightarrow> SmsException msg c
                       | PlainError msg own \<Rightarrow> PlainError msg own
                       | NonError s own \<Rightarrow> PlainError s None)"
    by (cases err) simp_all
  have res: "sendOtpWithRetry core phone code (Some n) drv tr
           = (Inl (as_Error err),
              tr @ concat (map (\<lambda>a. [Call ?msg, Delay (2 ^ a * 1000)]) [1..<nat n]) @ [Call ?msg])"
    using retry_loop_exhausts [of 1 "nat n - 1" n core tr ?msg None] eq all up err
    by (simp add: sendOtpWithRetry_def msg)
  have len: "length (calls (concat (map (\<lambda>a. [Call m, Delay (f a)]) xs))) = length xs"
    for m f and xs :: "nat list"
    by (induction xs) auto
  have cnt: "ncalls (snd (sendOtpWithRetry core phone code (Some n) drv tr)) = ncalls tr + nat n"
    unfolding res using assms(1) by (simp add: ncalls_def calls_append len)
  from err res cnt show ?thesis unfolding wrap by blast
qed

theorem sendOtpWithRetry_throws_after_maxRetries_witness:
  "sendOtpWithRetry
       (\<lambda>n m. if n = 3 then Inl (SmsException ''gateway timeout'' ''TIMEOUT'')
               else Inl (NonError ''early'' None))
       ''+1'' ''42'' (Some 4) None []
     = (Inl (SmsException ''gateway timeout'' ''TIMEOUT''),
        [Call \<lparr>to = ''+1'', template = ''otp-verification'', tokens = [(''code'', ''42'')],
               driver = None\<rparr>, Delay 2000,
         Call \<lparr>to = ''+1'', template = ''otp-verification'', tokens = [(''code'', ''42'')],
               driver = None\<rparr>, Delay 4000,
         Call \<lparr>to = ''+1'', template = ''otp-verification'', tokens = [(''code'', ''42'')],
               driver = None\<rparr>, Delay 8000,
         Call \<lparr>to = ''+1'', template = ''otp-verification'', tokens = [(''code'', ''42'')],
               driver = None\<rparr>])
   \<and> sendOtpWithRetry (\<lambda>n m. Inl (NonError ''refused'' (Some ''E42''))) ''+1'' ''42'' (Some 1) None []
     = (Inl (PlainError ''refused'' None),
        [Call \<lparr>to = ''+1'', template = ''otp-verification'', tokens = [(''code'', ''42'')],
               driver = None\<rparr>])"
proof
  let ?core = "(\<lambda>n m. if n = 3 then Inl (SmsException ''gateway timeout'' ''TIMEOUT'')
               else Inl (NonError ''early'' None)) :: capability"
  let ?msg = "\<lparr>to = ''+1'', template = ''otp-verification'', tokens = [(''code'', ''42'')],
               driver = None\<rparr>"
  have h1: "(1::int) \<le> 4" by simp
  have h2: "\<forall>j. int j < 4 \<longrightarrow> isl (?core (ncalls [] + j) ?msg)"
    by simp
  from sendOtpWithRetry_throws_after_maxRetries [OF h1 h2]
  obtain err where e: "?core (ncalls [] + (nat 4 - 1)) ?msg = Inl err"
    "sendOtpWithRetry ?core ''+1'' ''42'' (Some 4) None []
       = (Inl (case err of
                 SmsException msg c \<Rightarrow> SmsException msg c
               | PlainError msg own \<Rightarrow> PlainError msg own
               | NonError s own \<Rightarrow> PlainError s None),
          [] @ concat (map (\<lambda>a. [Call ?msg, Delay (2 ^ a * 1000)]) [1..<nat 4]) @ [Call ?msg])"
    by blast
  from e(1) have "err = SmsException ''gateway timeout'' ''TIMEOUT''"
    by (simp add: ncalls_def)
  with e(2) show "sendOtpWithRetry ?core ''+1'' ''42'' (Some 4) None []
     = (Inl (SmsException ''gateway timeout'' ''TIMEOUT''),
        [Call ?msg, Delay 2000, Call ?msg, Delay 4000, Call ?msg, Delay 8000, Call ?msg])"
    by (simp add: upt_rec)
next
  let ?core = "(\<lambda>n m. Inl (NonError ''refused'' (Some ''E42''))) :: capability"
  let ?msg = "\<lparr>to = ''+1'', template = ''otp-verification'', tokens = [(''code'', ''42'')],
               driver = None\<rparr>"
  have h1: "(1::int) \<le> 1" by simp
  have h2: "\<forall>j. int j < 1 \<longrightarrow> isl (?core (ncalls [] + j) ?msg)"
    by simp
  from sendOtpWithRetry_throws_after_maxRetries [OF h1 h2]
  obtain err where e: "?core (ncalls [] + (nat 1 - 1)) ?msg = Inl err"
    "sendOtpWithRetry ?core ''+1'' ''42'' (Some 1) None []
       = (Inl (case err of
                 SmsException msg c \<Rightarrow> SmsException msg c
               | PlainError msg own \<Rightarrow> PlainError msg own
               | NonError s own \<Rightarrow> PlainError s None),
          [] @ concat (map (\<lambda>a. [Call ?msg, Delay (2 ^ a * 1000)]) [1..<nat 1]) @ [Call ?msg])"
    by blast
  from e(1) have "err = NonError ''refused'' (Some ''E42'')" by simp
  with e(2) show "sendOtpWithRetry ?core ''+1'' ''42'' (Some 1) None []
     = (Inl (PlainError ''refused'' None), [Call ?msg])"
    by simp
qed

section \<open>Properties of the fallback sender\<close>

lemma truthy_all: "truthy d"
  by (cases d) (simp_all add: truthy_def)

lemma or_else_eq: "or_else x y = (case x of None \<Rightarrow> y | Some d \<Rightarrow> d)"
  by (simp add: or_else_def truthy_all split: option.splits)

lemma drivers_eq:
  "drivers cfg p f =
     [case p of None \<Rightarrow> getDefaultDriver cfg | Some d \<Rightarrow> d,
      case f of
        Some d \<Rightarrow> d
      | None \<Rightarrow> (case filter (\<lambda>d. Some d \<noteq> p) (getAvailableDrivers cfg) of
                  [] \<Rightarrow> MOCK | d # _ \<Rightarrow> d)]"
proof -
  have alt: "getAlternativeDriver cfg p =
      (case filter (\<lambda>d. Some d \<noteq> p) (getAvailableDrivers cfg) of [] \<Rightarrow> MOCK | d # _ \<Rightarrow> d)"
    unfolding getAlternativeDriver_def Let_def or_else_eq by (simp split: list.split)
  show ?thesis
    unfolding drivers_def or_else_eq alt by (cases f) (simp_all add: truthy_all)
qed

lemma fallback_skip:
  "fallback_loop cfg core mk ds lastR tr
     = fallback_loop cfg core mk (filter (isDriverAvailable cfg) ds) lastR tr"
  by (induction ds arbitrary: lastR tr) (auto simp: verify_eq split: sum.splits)

lemma fallback_all_fail:
  "\<forall>d\<in>set ds. isDriverAvailable cfg d \<Longrightarrow>
   \<forall>r\<in>set (returned (seq_outcomes core (ncalls tr) (map mk ds))). \<not> success r \<Longrightarrow>
   fallback_loop cfg core mk ds lastR tr
     = (if returned (seq_outcomes core (ncalls tr) (map mk ds)) = []
        then (case lastR of Some r \<Rightarrow> r | None \<Rightarrow> all_failed)
        else last (returned (seq_outcomes core (ncalls tr) (map mk ds))),
        tr @ map (\<lambda>d. Call (mk d)) ds)"
proof (induction ds arbitrary: lastR tr)
  case Nil
  then show ?case by (simp split: option.splits)
next
  case (Cons d ds)
  let ?tr = "tr @ [Call (mk d)]"
  have n: "ncalls ?tr = Suc (ncalls tr)" by (simp add: ncalls_def calls_append)
  show ?case
  proof (cases "core (ncalls tr) (mk d)")
    case (Inl e)
    with Cons.prems have "fallback_loop cfg core mk (d # ds) lastR tr = fallback_loop cfg core mk ds lastR ?tr"
      by (simp add: verify_eq)
    also have "\<dots> = (if returned (seq_outcomes core (ncalls ?tr) (map mk ds)) = []
        then (case lastR of Some r \<Rightarrow> r | None \<Rightarrow> all_failed)
        else last (returned (seq_outcomes core (ncalls ?tr) (map mk ds))),
        ?tr @ map (\<lambda>d. Call (mk d)) ds)"
      using Cons.prems Inl by (intro Cons.IH) (auto simp: n)
    finally show ?thesis using Inl by (simp add: n)
  next
    case (Inr r)
    with Cons.prems have nr: "\<not> success r" by simp
    with Cons.prems Inr have "fallback_loop cfg core mk (d # ds) lastR tr = fallback_loop cfg core mk ds (Some r) ?tr"
      by (simp add: verify_eq)
    also have "\<dots> = (if returned (seq_outcomes core (ncalls ?tr) (map mk ds)) = []
        then (case Some r of Some r \<Rightarrow> r | None \<Rightarrow> all_failed)
        else last (returned (seq_outcomes core (ncalls ?tr) (map mk ds))),
        ?tr @ map (\<lambda>d. Call (mk d)) ds)"
      using Cons.prems Inr by (intro Cons.IH) (auto simp: n)
    finally show ?thesis using Inr by (simp add: n)
  qed
qed

lemma fallback_first_success:
  "\<forall>d\<in>set ds. isDriverAvailable cfg d \<Longrightarrow> j < length ds \<Longrightarrow>
   seq_outcomes core (ncalls tr) (map mk ds) ! j = Inr r \<Longrightarrow> success r \<Longrightarrow>
   \<forall>q\<in>set (returned (take j (seq_outcomes core (ncalls tr) (map mk ds)))). \<not> success q \<Longrightarrow>
   fallback_loop cfg core mk ds lastR tr = (r, tr @ map (\<lambda>d. Call (mk d)) (take (Suc j) ds))"
proof (induction ds arbitrary: j lastR tr)
  case Nil
  then show ?case by simp
next
  case (Cons d ds)
  let ?tr = "tr @ [Call (mk d)]"
  have n: "ncalls ?tr = Suc (ncalls tr)" by (simp add: ncalls_def calls_append)
  show ?case
  proof (cases j)
    case 0
    with Cons.prems show ?thesis by (simp add: verify_eq)
  next
    case (Suc j')
    show ?thesis
    proof (cases "core (ncalls tr) (mk d)")
      case (Inl e)
      have "fallback_loop cfg core mk ds lastR ?tr = (r, ?tr @ map (\<lambda>d. Call (mk d)) (take (Suc j') ds))"
        using Cons.prems Suc Inl by (intro Cons.IH) (simp_all add: n)
      with Inl Cons.prems show ?thesis using Suc by (simp add: verify_eq)
    next
      case (Inr q)
      with Cons.prems Suc have nq: "\<not> success q" by simp
      have "fallback_loop cfg core mk ds (Some q) ?tr = (r, ?tr @ map (\<lambda>d. Call (mk d)) (take (Suc j') ds))"
        using Cons.prems Suc Inr by (intro Cons.IH) (simp_all add: n)
      with Inr nq Cons.prems show ?thesis using Suc by (simp add: verify_eq)
    qed
  qed
qed

lemma fallback_trace_prefix:
  "\<forall>d\<in>set ds. isDriverAvailable cfg d \<Longrightarrow>
   \<exists>n\<le>length ds. snd (fallback_loop cfg core mk ds lastR tr) = tr @ map (\<lambda>d. Call (mk d)) (take n ds)"
proof (induction ds arbitrary: lastR tr)
  case Nil
  then show ?case by (simp split: option.splits)
next
  case (Cons d ds)
  let ?tr = "tr @ [Call (mk d)]"
  have av: "isDriverAvailable cfg d" and avs: "\<forall>d\<in>set ds. isDriverAvailable cfg d"
    using Cons.prems by simp_all
  have rec: "\<exists>n\<le>length (d # ds). snd (fallback_loop cfg core mk ds lastR' ?tr)
                = tr @ map (\<lambda>d. Call (mk d)) (take n (d # ds))" for lastR'
  proof -
    from Cons.IH [OF avs, of lastR' ?tr] obtain n where
      n: "n \<le> length ds"
         "snd (fallback_loop cfg core mk ds lastR' ?tr) = ?tr @ map (\<lambda>d. Call (mk d)) (take n ds)"
      by blast
    have "Suc n \<le> length (d # ds)" using n(1) by simp
    moreover have "snd (fallback_loop cfg core mk ds lastR' ?tr)
                = tr @ map (\<lambda>d. Call (mk d)) (take (Suc n) (d # ds))"
      unfolding n(2) by simp
    ultimately show ?thesis by blast
  qed
  show ?case
  proof (cases "core (ncalls tr) (mk d)")
    case (Inl e)
    then have "fallback_loop cfg core mk (d # ds) lastR tr = fallback_loop cfg core mk ds lastR ?tr"
      using av by (simp add: verify_eq)
    then show ?thesis using rec [of lastR] by simp
  next
    case (Inr q)
    show ?thesis
    proof (cases "success q")
      case True
      then have "fallback_loop cfg core mk (d # ds) lastR tr = (q, ?tr)"
        using av Inr by (simp add: verify_eq)
      then have "snd (fallback_loop cfg core mk (d # ds) lastR tr)
          = tr @ map (\<lambda>d. Call (mk d)) (take (Suc 0) (d # ds))"
        by simp
      moreover have "Suc 0 \<le> length (d # ds)" by simp
      ultimately show ?thesis by blast
    next
      case False
      then have "fallback_loop cfg core mk (d # ds) lastR tr = fallback_loop cfg core mk ds (Some q) ?tr"
        using av Inr by (simp add: verify_eq)
      then show ?thesis using rec [of "Some q"] by simp
    qed
  qed
qed

text \<open>
  Claim C10. The list of candidate drivers of \<open>sendWithFallback\<close> always has exactly two
  entries: the primary driver if one is given and the configured default otherwise, then
  the fallback driver if one is given and otherwise the first available driver that differs
  from the \<open>primaryDriver\<close> argument, or \<open>MOCK\<close> when there is none. In particular, without a
  fallback driver and without an available driver other than the primary, the second entry is
  \<open>MOCK\<close>. The two entries may name the same driver: the list is not de-duplicated.
\<close>

theorem drivers_two_entries:
  "length (drivers cfg p f) = 2
   \<and> drivers cfg p f =
       [case p of None \<Rightarrow> getDefaultDriver cfg | Some d \<Rightarrow> d,
        case f of
          Some d \<Rightarrow> d
        | None \<Rightarrow> (case filter (\<lambda>d. Some d \<noteq> p) (getAvailableDrivers cfg) of
                    [] \<Rightarrow> MOCK | d # _ \<Rightarrow> d)]
   \<and> (filter (\<lambda>d. Some d \<noteq> p) (getAvailableDrivers cfg) = [] \<longrightarrow> drivers cfg p None ! 1 = MOCK)
   \<and> drivers cfg (Some d) (Some d) = [d, d]"
proof (intro conjI impI)
  show eq: "drivers cfg p f =
       [case p of None \<Rightarrow> getDefaultDriver cfg | Some d \<Rightarrow> d,
        case f of
          Some d \<Rightarrow> d
        | None \<Rightarrow> (case filter (\<lambda>d. Some d \<noteq> p) (getAvailableDrivers cfg) of
                    [] \<Rightarrow> MOCK | d # _ \<Rightarrow> d)]"
    by (rule drivers_eq)
  show "length (drivers cfg p f) = 2"
    unfolding eq by simp
  show "drivers cfg (Some d) (Some d) = [d, d]"
    unfolding drivers_eq by simp
next
  assume none: "filter (\<lambda>d. Some d \<noteq> p) (getAvailableDrivers cfg) = []"
  have "drivers cfg p None = [case p of None \<Rightarrow> getDefaultDriver cfg | Some d \<Rightarrow> d, MOCK]"
    unfolding drivers_eq none by simp
  then show "drivers cfg p None ! 1 = MOCK"
    by simp
qed

theorem drivers_two_entries_witness:
  "drivers \<lparr>getDefaultDriver = SMSIR, isDriverAvailable = (\<lambda>d. d = KAVENEGAR),
            getAvailableDrivers = [KAVENEGAR]\<rparr> (Some KAVENEGAR) None = [KAVENEGAR, MOCK]
   \<and> drivers \<lparr>getDefaultDriver = SMSIR, isDriverAvailable = (\<lambda>d. d = KAVENEGAR),
            getAvailableDrivers = [KAVENEGAR]\<rparr> (Some KAVENEGAR) None ! 1 = MOCK"
  using drivers_two_entries [of "\<lparr>getDefaultDriver = SMSIR, isDriverAvailable = (\<lambda>d. d = KAVENEGAR),
            getAvailableDrivers = [KAVENEGAR]\<rparr>" "Some KAVENEGAR" None]
  by simp

lemma fallback_sends:
  "let avs = filter (isDriverAvailable cfg) (drivers cfg p f);
       mk = fallback_message phone tmpl toks;
       outs = seq_outcomes core (ncalls tr) (map mk avs);
       res = sendWithFallback cfg core phone tmpl toks p f tr
   in (\<exists>n\<le>length avs. snd res = tr @ map (\<lambda>d. Call (mk d)) (take n avs))
    \<and> (\<forall>e\<in>set (drop (length tr) (snd res)). \<exists>d. e = Call (mk d) \<and> isDriverAvailable cfg d)
    \<and> (\<forall>j r. j < length avs \<and> outs ! j = Inr r \<and> success r
            \<and> (\<forall>q\<in>set (returned (take j outs)). \<not> success q)
          \<longrightarrow> res = (r, tr @ map (\<lambda>d. Call (mk d)) (take (Suc j) avs)))
    \<and> (\<forall>pd fd r. p = Some pd \<and> f = Some fd
            \<and> \<not> isDriverAvailable cfg pd \<and> isDriverAvailable cfg fd
            \<and> core (ncalls tr) (mk fd) = Inr r \<and> success r
          \<longrightarrow> res = (r, tr @ [Call (mk fd)]))"
proof -
  define avs where "avs = filter (isDriverAvailable cfg) (drivers cfg p f)"
  define mk where "mk = fallback_message phone tmpl toks"
  define outs where "outs = seq_outcomes core (ncalls tr) (map mk avs)"
  define res where "res = sendWithFallback cfg core phone tmpl toks p f tr"
  have av: "\<forall>d\<in>set avs. isDriverAvailable cfg d" by (simp add: avs_def)
  have res: "res = fallback_loop cfg core mk avs None tr"
    unfolding res_def sendWithFallback_def avs_def mk_def by (rule fallback_skip)
  have A: "\<exists>n\<le>length avs. snd res = tr @ map (\<lambda>d. Call (mk d)) (take n avs)"
    unfolding res by (rule fallback_trace_prefix [OF av])
  have D: "\<forall>e\<in>set (drop (length tr) (snd res)). \<exists>d. e = Call (mk d) \<and> isDriverAvailable cfg d"
  proof
    fix e assume e: "e \<in> set (drop (length tr) (snd res))"
    from A obtain n where "snd res = tr @ map (\<lambda>d. Call (mk d)) (take n avs)" by blast
    with e have "e \<in> (\<lambda>d. Call (mk d)) ` set (take n avs)" by simp
    then obtain d where "e = Call (mk d)" "d \<in> set (take n avs)" by blast
    moreover from this av have "isDriverAvailable cfg d" by (meson in_set_takeD)
    ultimately show "\<exists>d. e = Call (mk d) \<and> isDriverAvailable cfg d" by blast
  qed
  have B: "res = (r, tr @ map (\<lambda>d. Call (mk d)) (take (Suc j) avs))"
    if "j < length avs \<and> outs ! j = Inr r \<and> success r
            \<and> (\<forall>q\<in>set (returned (take j outs)). \<not> success q)" for j r
    unfolding res using that fallback_first_success [OF av, of j core tr mk r None]
    by (simp add: outs_def)
  have C: "res = (r, tr @ [Call (mk fd)])"
    if h: "p = Some pd \<and> f = Some fd
            \<and> \<not> isDriverAvailable cfg pd \<and> isDriverAvailable cfg fd
            \<and> core (ncalls tr) (mk fd) = Inr r \<and> success r" for pd fd r
  proof -
    have avs: "avs = [fd]" using h by (simp add: avs_def drivers_eq)
    have "0 < length avs \<and> outs ! 0 = Inr r \<and> success r
            \<and> (\<forall>q\<in>set (returned (take 0 outs)). \<not> success q)"
      using h by (simp add: outs_def avs)
    from B [OF this] show ?thesis by (simp add: avs)
  qed
  from A B C D show ?thesis
    unfolding Let_def avs_def [symmetric] mk_def [symmetric] outs_def [symmetric] res_def [symmetric]
    by blast
qed

lemma fallback_exhausted:
  "let avs = filter (isDriverAvailable cfg) (drivers cfg p f);
       mk = fallback_message phone tmpl toks;
       outs = seq_outcomes core (ncalls tr) (map mk avs);
       res = sendWithFallback cfg core phone tmpl toks p f tr
   in (\<forall>r\<in>set (returned outs). \<not> success r) \<longrightarrow>
        res = (if returned outs = [] then all_failed else last (returned outs),
               tr @ map (\<lambda>d. Call (mk d)) avs)
      \<and> (\<forall>d1 d2 r1 r2. avs = [d1, d2] \<and> outs = [Inr r1, Inr r2] \<longrightarrow> fst res = r2)
      \<and> ((\<forall>out\<in>set outs. isl out) \<longrightarrow> fst res = all_failed)"
proof -
  define avs where "avs = filter (isDriverAvailable cfg) (drivers cfg p f)"
  define mk where "mk = fallback_message phone tmpl toks"
  define outs where "outs = seq_outcomes core (ncalls tr) (map mk avs)"
  define res where "res = sendWithFallback cfg core phone tmpl toks p f tr"
  have av: "\<forall>d\<in>set avs. isDriverAvailable cfg d" by (simp add: avs_def)
  have res: "res = fallback_loop cfg core mk avs None tr"
    unfolding res_def sendWithFallback_def avs_def mk_def by (rule fallback_skip)
  have none: "returned xs = []" if "\<forall>out\<in>set xs. isl out" for xs
    using that by (induction xs rule: returned.induct) auto
  have main: "res = (if returned outs = [] then all_failed else last (returned outs),
               tr @ map (\<lambda>d. Call (mk d)) avs)
      \<and> (\<forall>d1 d2 r1 r2. avs = [d1, d2] \<and> outs = [Inr r1, Inr r2] \<longrightarrow> fst res = r2)
      \<and> ((\<forall>out\<in>set outs. isl out) \<longrightarrow> fst res = all_failed)"
    if h: "\<forall>r\<in>set (returned outs). \<not> success r"
  proof -
    have eq: "res = (if returned outs = [] then all_failed else last (returned outs),
               tr @ map (\<lambda>d. Call (mk d)) avs)"
      unfolding res outs_def using fallback_all_fail [OF av, of core tr mk None] h
      by (simp add: outs_def)
    have two: "fst res = r2" if "avs = [d1, d2] \<and> outs = [Inr r1, Inr r2]" for d1 d2 r1 r2
      unfolding eq using that by simp
    have syn: "fst res = all_failed" if "\<forall>out\<in>set outs. isl out"
      unfolding eq using none [OF that] by simp
    from eq two syn show ?thesis by blast
  qed
  then show ?thesis
    unfolding Let_def avs_def [symmetric] mk_def [symmetric] outs_def [symmetric] res_def [symmetric]
    by blast
qed

text \<open>
  Claim C8. Let \<open>avs\<close> be the candidate drivers that the configuration reports available,
  in candidate order. \<open>sendWithFallback\<close> invokes the send capability for an initial part of
  \<open>avs\<close>, in that order, each time with the message that has the given recipient, template
  and tokens and that candidate as its driver, and for nothing else, so never for an
  unavailable candidate. If the send to the \<open>j\<close>-th of them is the first that returns a
  response with \<open>success = True\<close>, that response is the result and the invocations stop
  there. In particular, with the primary driver unavailable and the fallback driver
  available and succeeding, the result is the fallback's response after a single
  invocation, the one whose message names the fallback driver.
\<close>

theorem sendWithFallback_first_success:
  "let avs = filter (isDriverAvailable cfg) (drivers cfg p f);
       mk = (\<lambda>d. \<lparr>to = phone, template = tmpl, tokens = toks, driver = Some d\<rparr>);
       outs = seq_outcomes core (ncalls tr) (map mk avs);
       res = sendWithFallback cfg core phone tmpl toks p f tr
   in (\<exists>n\<le>length avs. snd res = tr @ map (\<lambda>d. Call (mk d)) (take n avs))
    \<and> (\<forall>e\<in>set (drop (length tr) (snd res)). \<exists>d. e = Call (mk d) \<and> isDriverAvailable cfg d)
    \<and> (\<forall>j r. j < length avs \<and> outs ! j = Inr r \<and> success r
            \<and> (\<forall>q\<in>set (returned (take j outs)). \<not> success q)
          \<longrightarrow> res = (r, tr @ map (\<lambda>d. Call (mk d)) (take (Suc j) avs)))
    \<and> (\<forall>pd fd r. p = Some pd \<and> f = Some fd
            \<and> \<not> isDriverAvailable cfg pd \<and> isDriverAvailable cfg fd
            \<and> core (ncalls tr) (mk fd) = Inr r \<and> success r
          \<longrightarrow> res = (r, tr @ [Call (mk fd)]))"
proof -
  have eq: "fallback_message phone tmpl toks
              = (\<lambda>d. \<lparr>to = phone, template = tmpl, tokens = toks, driver = Some d\<rparr>)"
    by (rule ext) (simp add: fallback_message_def)
  from fallback_sends [of cfg p f phone tmpl toks core tr, unfolded eq]
  show ?thesis .
qed

theorem sendWithFallback_first_success_witness:
  "sendWithFallback
     \<lparr>getDefaultDriver = KAVENEGAR, isDriverAvailable = (\<lambda>d. d = MOCK),
      getAvailableDrivers = [MOCK]\<rparr>
     (\<lambda>n m. if driver m = Some MOCK then Inr accepted else Inr rejected)
     ''+1'' ''otp'' [(''code'', ''42'')] (Some KAVENEGAR) (Some MOCK) []
   = (accepted,
      [Call \<lparr>to = ''+1'', template = ''otp'', tokens = [(''code'', ''42'')],
             driver = Some MOCK\<rparr>])"
proof -
  let ?cfg = "\<lparr>getDefaultDriver = KAVENEGAR, isDriverAvailable = (\<lambda>d. d = MOCK),
      getAvailableDrivers = [MOCK]\<rparr>"
  let ?core = "(\<lambda>n m. if driver m = Some MOCK then Inr accepted else Inr rejected) :: capability"
  let ?mk = "\<lambda>d. \<lparr>to = ''+1'', template = ''otp'', tokens = [(''code'', ''42'')], driver = Some d\<rparr>"
  have "\<forall>pd fd r. Some KAVENEGAR = Some pd \<and> Some MOCK = Some fd
            \<and> \<not> isDriverAvailable ?cfg pd \<and> isDriverAvailable ?cfg fd
            \<and> ?core (ncalls []) (?mk fd) = Inr r \<and> success r
          \<longrightarrow> sendWithFallback ?cfg ?core ''+1'' ''otp'' [(''code'', ''42'')]
                  (Some KAVENEGAR) (Some MOCK) []
                = (r, [] @ [Call (?mk fd)])"
    using sendWithFallback_first_success
      [of ?cfg "Some KAVENEGAR" "Some MOCK" "''+1''" "''otp''" "[(''code'', ''42'')]" ?core "[]"]
    unfolding Let_def by blast
  from this [rule_format, of KAVENEGAR MOCK accepted]
  show ?thesis by (simp add: accepted_def)
qed

text \<open>
  Claim C9. \<open>sendWithFallback\<close> has no throwing outcome: every error thrown by the send
  capability is caught in the loop. If none of the sends to the available candidates returns
  a response with \<open>success = True\<close>, every available candidate is tried, and the result is
  the last response that a send returned (with two candidates that both return
  \<open>success = False\<close>, the second one); only when no send returned a response at all (every
  candidate unavailable or throwing) it is the synthetic response with \<open>success = False\<close>
  and the error text \<open>All drivers failed or unavailable\<close>, without message id and error
  code.
\<close>

theorem sendWithFallback_all_fail:
  "let avs = filter (isDriverAvailable cfg) (drivers cfg p f);
       mk = (\<lambda>d. \<lparr>to = phone, template = tmpl, tokens = toks, driver = Some d\<rparr>);
       outs = seq_outcomes core (ncalls tr) (map mk avs);
       res = sendWithFallback cfg core phone tmpl toks p f tr
   in (\<forall>r\<in>set (returned outs). \<not> success r) \<longrightarrow>
        res = (if returned outs = []
               then \<lparr>success = False, messageId = None,
                     error = Some ''All drivers failed or unavailable'', errorCode = None\<rparr>
               else last (returned outs),
               tr @ map (\<lambda>d. Call (mk d)) avs)
      \<and> (\<forall>d1 d2 r1 r2. avs = [d1, d2] \<and> outs = [Inr r1, Inr r2] \<longrightarrow> fst res = r2)
      \<and> ((\<forall>out\<in>set outs. isl out) \<longrightarrow>
            fst res = \<lparr>success = False, messageId = None,
                        error = Some ''All drivers failed or unavailable'', errorCode = None\<rparr>)"
proof -
  have eq: "fallback_message phone tmpl toks
              = (\<lambda>d. \<lparr>to = phone, template = tmpl, tokens = toks, driver = Some d\<rparr>)"
    by (rule ext) (simp add: fallback_message_def)
  from fallback_exhausted [of cfg p f phone tmpl toks core tr, unfolded eq all_failed_def]
  show ?thesis .
qed

theorem sendWithFallback_all_fail_witness:
  "sendWithFallback
     \<lparr>getDefaultDriver = KAVENEGAR, isDriverAvailable = (\<lambda>d. True),
      getAvailableDrivers = [KAVENEGAR, SMSIR]\<rparr>
     (\<lambda>n m. Inr (if n = 0 then rejected else rejected\<lparr>errorCode := Some ''second''\<rparr>))
     ''+1'' ''otp'' [] (Some KAVENEGAR) (Some SMSIR) []
   = (\<lparr>success = False, messageId = None, error = Some ''rejected'', errorCode = Some ''second''\<rparr>,
      [Call \<lparr>to = ''+1'', template = ''otp'', tokens = [], driver = Some KAVENEGAR\<rparr>,
       Call \<lparr>to = ''+1'', template = ''otp'', tokens = [], driver = Some SMSIR\<rparr>])
   \<and> sendWithFallback
     \<lparr>getDefaultDriver = KAVENEGAR, isDriverAvailable = (\<lambda>d. d = SMSIR),
      getAvailableDrivers = [SMSIR]\<rparr>
     (\<lambda>n m. Inl (PlainError ''down'' None))
     ''+1'' ''otp'' [] (Some KAVENEGAR) (Some SMSIR) []
   = (\<lparr>success = False, messageId = None, error = Some ''All drivers failed or unavailable'',
       errorCode = None\<rparr>,
      [Call \<lparr>to = ''+1'', template = ''otp'', tokens = [], driver = Some SMSIR\<rparr>])"
proof
  let ?cfg = "\<lparr>getDefaultDriver = KAVENEGAR, isDriverAvailable = (\<lambda>d. True),
      getAvailableDrivers = [KAVENEGAR, SMSIR]\<rparr>"
  let ?core = "(\<lambda>n m. Inr (if n = 0 then rejected else rejected\<lparr>errorCode := Some ''second''\<rparr>))
                 :: capability"
  let ?mk = "\<lambda>d. \<lparr>to = ''+1'', template = ''otp'', tokens = [], driver = Some d\<rparr>"
  let ?syn = "\<lparr>success = False, messageId = None,
               error = Some ''All drivers failed or unavailable'', errorCode = None\<rparr>"
  have avs: "filter (isDriverAvailable ?cfg) (drivers ?cfg (Some KAVENEGAR) (Some SMSIR))
               = [KAVENEGAR, SMSIR]"
    by (simp add: drivers_eq)
  have outs: "seq_outcomes ?core (ncalls []) (map ?mk [KAVENEGAR, SMSIR])
               = [Inr rejected, Inr (rejected\<lparr>errorCode := Some ''second''\<rparr>)]"
    by (simp add: ncalls_def)
  have fails: "\<forall>r\<in>set (returned [Inr rejected, Inr (rejected\<lparr>errorCode := Some ''second''\<rparr>)]).
                 \<not> success r"
    by (simp add: rejected_def)
  from sendWithFallback_all_fail
         [of ?cfg "Some KAVENEGAR" "Some SMSIR" "''+1''" "''otp''" "[]" ?core "[]",
          unfolded Let_def avs outs] fails
  have "sendWithFallback ?cfg ?core ''+1'' ''otp'' [] (Some KAVENEGAR) (Some SMSIR) []
          = (if returned [Inr rejected, Inr (rejected\<lparr>errorCode := Some ''second''\<rparr>)] = []
             then ?syn
             else last (returned [Inr rejected, Inr (rejected\<lparr>errorCode := Some ''second''\<rparr>)]),
             [] @ map (\<lambda>d. Call (?mk d)) [KAVENEGAR, SMSIR])"
    by blast
  then show "sendWithFallback ?cfg ?core ''+1'' ''otp'' [] (Some KAVENEGAR) (Some SMSIR) []
   = (\<lparr>success = False, messageId = None, error = Some ''rejected'', errorCode = Some ''second''\<rparr>,
      [Call (?mk KAVENEGAR), Call (?mk SMSIR)])"
    by (simp add: rejected_def)
next
  let ?cfg = "\<lparr>getDefaultDriver = KAVENEGAR, isDriverAvailable = (\<lambda>d. d = SMSIR),
      getAvailableDrivers = [SMSIR]\<rparr>"
  let ?core = "(\<lambda>n m. Inl (PlainError ''down'' None)) :: capability"
  let ?mk = "\<lambda>d. \<lparr>to = ''+1'', template = ''otp'', tokens = [], driver = Some d\<rparr>"
  let ?syn = "\<lparr>success = False, messageId = None,
               error = Some ''All drivers failed or unavailable'', errorCode = None\<rparr>"
  have avs: "filter (isDriverAvailable ?cfg) (drivers ?cfg (Some KAVENEGAR) (Some SMSIR)) = [SMSIR]"
    by (simp add: drivers_eq)
  have outs: "seq_outcomes ?core (ncalls []) (map ?mk [SMSIR]) = [Inl (PlainError ''down'' None)]"
    by simp
  have fails: "\<forall>r\<in>set (returned [Inl (PlainError ''down'' None)]). \<not> success r"
    by simp
  from sendWithFallback_all_fail
         [of ?cfg "Some KAVENEGAR" "Some SMSIR" "''+1''" "''otp''" "[]" ?core "[]",
          unfolded Let_def avs outs] fails
  have "sendWithFallback ?cfg ?core ''+1'' ''otp'' [] (Some KAVENEGAR) (Some SMSIR) []
          = (if returned [Inl (PlainError ''down'' None)] = [] then ?syn
             else last (returned [Inl (PlainError ''down'' None)]),
             [] @ map (\<lambda>d. Call (?mk d)) [SMSIR])"
    by blast
  then show "sendWithFallback ?cfg ?core ''+1'' ''otp'' [] (Some KAVENEGAR) (Some SMSIR) []
   = (?syn, [Call (?mk SMSIR)])"
    by simp
qed

section \<open>Properties of the bulk dispatcher\<close>

lemma length_seq_outcomes [simp]: "length (seq_outcomes core n ms) = length ms"
  by (induction ms arbitrary: n) auto

lemma seq_outcomes_nth: "k < length ms \<Longrightarrow> seq_outcomes core n ms ! k = core (n + k) (ms ! k)"
proof (induction ms arbitrary: n k)
  case Nil
  then show ?case by simp
next
  case (Cons m ms)
  then show ?case by (cases k) auto
qed

lemma seq_outcomes_append:
  "seq_outcomes core n (xs @ ys) = seq_outcomes core n xs @ seq_outcomes core (n + length xs) ys"
  by (induction xs arbitrary: n) auto

lemma batchPromises_eq:
  "batchPromises core ff i batch index tr =
     (map (\<lambda>(k, out). batch_promise ff (i + k) out)
        (enumerate index (seq_outcomes core (ncalls tr) batch)),
      tr @ map Call batch)"
proof (induction batch arbitrary: index tr)
  case Nil
  then show ?case by simp
next
  case (Cons m ms)
  have n: "ncalls (tr @ [Call m]) = Suc (ncalls tr)" by (simp add: ncalls_def calls_append)
  show ?case by (simp add: verify_eq Cons.IH n)
qed

lemma set_settle_order [simp]: "set (settle_order rank i n) = {i..<i + n}"
  by (simp add: settle_order_def)

lemma filter_eq_singleton: "distinct xs \<Longrightarrow> k \<in> set xs \<Longrightarrow> filter (\<lambda>x. k = x) xs = [k]"
  by (induction xs) (auto simp: filter_empty_conv)

lemma length_takeWhile_neq: "k \<in> set xs \<Longrightarrow> length (takeWhile (\<lambda>x. x \<noteq> k) xs) < length xs"
  by (induction xs) auto

text \<open>
  Every order of the members of a batch is the settle order of some \<open>rank\<close>, so a property
  that holds for every \<open>rank\<close> holds for every completion order.
\<close>

lemma settle_order_any_permutation:
  assumes d: "distinct p" and s: "set p = {i..<i + n}"
  shows "\<exists>rank. settle_order rank i n = p"
proof -
  define idx where "idx k = length (takeWhile (\<lambda>x. x \<noteq> k) p)" for k
  have at: "idx k < length p \<and> p ! idx k = k" if "k \<in> set p" for k
  proof -
    have lt: "idx k < length p"
      unfolding idx_def using that by (rule length_takeWhile_neq)
    then have "\<not> (p ! idx k \<noteq> k)" unfolding idx_def by (rule nth_length_takeWhile)
    with lt show ?thesis by simp
  qed
  have inj: "x = k" if "x \<in> set p" "k \<in> set p" "idx k = idx x" for x k
    using at [OF that(1)] at [OF that(2)] that(3) by simp
  have pos: "idx (p ! a) = a" if "a < length p" for a
  proof -
    have "p ! a \<in> set p" using that by simp
    from at [OF this] have "idx (p ! a) < length p" "p ! idx (p ! a) = p ! a" by simp_all
    with d that show ?thesis by (metis nth_eq_iff_index_eq)
  qed
  have "map idx p = [0..<length p]"
    by (rule nth_equalityI) (simp_all add: pos)
  then have srt: "sorted (map idx p)" by simp
  have "set p = set [i..<i + n]" using s by simp
  then have ms: "mset p = mset [i..<i + n]"
    using d by (subst set_eq_iff_mset_eq_distinct [symmetric]) simp_all
  have fl: "filter (\<lambda>x. idx k = idx x) p = filter (\<lambda>x. idx k = idx x) [i..<i + n]"
    if k: "k \<in> set p" for k
  proof -
    have "filter (\<lambda>x. idx k = idx x) p = filter (\<lambda>x. k = x) p"
      by (rule filter_cong) (use k inj in auto)
    also have "\<dots> = [k]" using d k by (rule filter_eq_singleton)
    also have "[k] = filter (\<lambda>x. k = x) [i..<i + n]"
      using k s by (intro filter_eq_singleton [symmetric]) simp_all
    also have "\<dots> = filter (\<lambda>x. idx k = idx x) [i..<i + n]"
      by (rule filter_cong) (use k inj s in auto)
    finally show ?thesis .
  qed
  have "sort_key idx [i..<i + n] = p"
    using ms fl srt by (rule properties_for_sort_key)
  then show ?thesis unfolding settle_order_def by blast
qed

lemma promise_all_fulfils:
  assumes "\<forall>p\<in>set ps. \<not> isl p"
  shows "promise_all rank i ps tr
           = (Inr (map projr ps), tr @ map Settle (settle_order rank i (length ps)))"
proof -
  have "find (\<lambda>k. isl (ps ! (k - i))) (settle_order rank i (length ps)) = None"
    using assms by (auto simp: find_None_iff)
  then show ?thesis by (simp add: promise_all_def)
qed

lemma array_set_end: "length xs = n \<Longrightarrow> array_set xs n v = xs @ [Some v]"
  by (simp add: array_set_def)

lemma place_results_append:
  "length results = n \<Longrightarrow>
   place_results (map (\<lambda>(k, out). (k, g out)) (enumerate n outs)) results
     = results @ map (\<lambda>out. Some (g out)) outs"
proof (induction outs arbitrary: n results)
  case Nil
  then show ?case by (simp add: place_results_def)
next
  case (Cons out outs)
  have "place_results (map (\<lambda>(k, out). (k, g out)) (enumerate n (out # outs))) results
      = place_results (map (\<lambda>(k, out). (k, g out)) (enumerate (Suc n) outs)) (results @ [Some (g out)])"
    using Cons.prems by (simp add: place_results_def array_set_end)
  also have "\<dots> = (results @ [Some (g out)]) @ map (\<lambda>out. Some (g out)) outs"
    using Cons.prems by (intro Cons.IH) simp
  finally show ?case by simp
qed

lemma quiet_promises:
  assumes "ff \<longrightarrow> (\<forall>out\<in>set outs. \<not> isl out)"
  shows "map (\<lambda>(k, out). batch_promise ff (i + k) out) (enumerate n outs)
           = map (\<lambda>(k, out). Inr (i + k, recorded out)) (enumerate n outs)"
  using assms
  by (induction outs arbitrary: n)
     (auto simp: batch_promise_def recorded_def split: sum.splits)

lemma enumerate_shift:
  "map (\<lambda>(k, out). (i + k, g out)) (enumerate 0 outs) = map (\<lambda>(k, out). (k, g out)) (enumerate i outs)"
proof -
  have "map (\<lambda>(k, out). (i + k, g out)) (enumerate n outs) = map (\<lambda>(k, out). (k, g out)) (enumerate (i + n) outs)" for n
    by (induction outs arbitrary: n) auto
  from this [of 0] show ?thesis by simp
qed

text \<open>One batch in which no promise rejects.\<close>

lemma quiet_batch:
  assumes quiet: "ff \<longrightarrow> (\<forall>out\<in>set (seq_outcomes core (ncalls tr) batch). \<not> isl out)"
    and len: "length results = i"
  shows "(case batchPromises core ff i batch 0 tr of
            (promises, tr1) \<Rightarrow>
              (case promise_all rank i promises tr1 of
                 (Inr batchResults, tr2) \<Rightarrow> Some (place_results batchResults results, tr2)
               | (Inl err, tr2) \<Rightarrow> None))
         = Some (results @ map (\<lambda>out. Some (recorded out)) (seq_outcomes core (ncalls tr) batch),
                 tr @ map Call batch @ map Settle (settle_order rank i (length batch)))"
proof -
  let ?outs = "seq_outcomes core (ncalls tr) batch"
  let ?ps = "map (\<lambda>(k, out). Inr (i + k, recorded out)) (enumerate 0 ?outs)
               :: (thrown + nat \<times> ISmsResponse) list"
  have bp: "batchPromises core ff i batch 0 tr = (?ps, tr @ map Call batch)"
    by (simp add: batchPromises_eq quiet_promises [OF quiet])
  have noisl: "\<forall>p\<in>set ?ps. \<not> isl p" by auto
  have pr: "map projr ?ps = map (\<lambda>(k, out). (i + k, recorded out)) (enumerate 0 ?outs)"
    by (simp add: case_prod_beta)
  have pa: "promise_all rank i ?ps (tr @ map Call batch)
        = (Inr (map (\<lambda>(k, out). (k, recorded out)) (enumerate i ?outs)),
           (tr @ map Call batch) @ map Settle (settle_order rank i (length batch)))"
    unfolding promise_all_fulfils [OF noisl] pr enumerate_shift by simp
  show ?thesis
    unfolding bp using pa by (simp add: place_results_append [OF len])
qed

lemma batch_count_less: "0 < c \<Longrightarrow> (j < batch_count c n) = (j * c < n)"
proof -
  assume c: "0 < c"
  have "(j < batch_count c n) = (Suc j \<le> (n + c - 1) div c)" by (simp add: batch_count_def Suc_le_eq)
  also have "\<dots> = (Suc j * c \<le> n + c - 1)" using c by (simp add: less_eq_div_iff_mult_less_eq)
  also have "\<dots> = (j * c < n)" using c by auto
  finally show ?thesis .
qed

lemma length_batch: "length (batch_of c msgs j) = min c (length msgs - j * c)"
  by (simp add: batch_of_def slice_def)

lemma drop_batch: "drop (j * c) msgs = batch_of c msgs j @ drop (Suc j * c) msgs"
proof -
  have "drop (j * c) msgs = take c (drop (j * c) msgs) @ drop c (drop (j * c) msgs)"
    by (simp only: append_take_drop_id)
  also have "drop c (drop (j * c) msgs) = drop (Suc j * c) msgs"
    by (simp add: add.commute)
  finally show ?thesis by (simp add: batch_of_def slice_def)
qed

lemma ncalls_Calls: "ncalls (tr @ map Call ms @ map Settle ks) = ncalls tr + length ms"
proof -
  have a: "calls (map Call ms) = ms" by (induction ms) auto
  have b: "calls (map Settle ks) = []" by (induction ks) auto
  show ?thesis by (simp add: ncalls_def calls_append a b)
qed

lemma bulk_loop_quiet:
  assumes c: "0 < c"
  shows "(ff \<longrightarrow> (\<forall>out\<in>set (seq_outcomes core (ncalls tr) (drop (j * c) msgs)). \<not> isl out)) \<Longrightarrow>
         (j * c < length msgs \<longrightarrow> length results = j * c) \<Longrightarrow>
         bulk_loop core rank c ff msgs (j * c) results tr
           = Some (Inr (results @ map (\<lambda>out. Some (recorded out))
                                    (seq_outcomes core (ncalls tr) (drop (j * c) msgs))),
                   tr @ concat (map (batch_events rank c msgs) [j..<batch_count c (length msgs)]))"
proof (induction "batch_count c (length msgs) - j" arbitrary: j results tr)
  case 0
  then have "\<not> j < batch_count c (length msgs)" by simp
  then have fin: "\<not> j * c < length msgs" using c by (simp add: batch_count_less)
  then have "drop (j * c) msgs = []" by simp
  moreover have "[j..<batch_count c (length msgs)] = []" using 0 by simp
  ultimately show ?case using fin by (subst bulk_loop.simps) (simp del: upt_eq_Nil_conv)
next
  case (Suc d)
  then have jlt: "j < batch_count c (length msgs)" by simp
  then have lt: "j * c < length msgs" using c by (simp add: batch_count_less)
  then have len: "length results = j * c" using Suc.prems by simp
  let ?b = "batch_of c msgs j"
  let ?bouts = "seq_outcomes core (ncalls tr) ?b"
  let ?tr = "tr @ map Call ?b @ map Settle (settle_order rank (j * c) (length ?b))"
  let ?results = "results @ map (\<lambda>out. Some (recorded out)) ?bouts"
  have split: "seq_outcomes core (ncalls tr) (drop (j * c) msgs)
                 = ?bouts @ seq_outcomes core (ncalls tr + length ?b) (drop (Suc j * c) msgs)"
    by (subst drop_batch) (simp add: seq_outcomes_append)
  have quiet: "ff \<longrightarrow> (\<forall>out\<in>set ?bouts. \<not> isl out)"
    using Suc.prems(1) unfolding split by auto
  have n: "ncalls ?tr = ncalls tr + length ?b" by (rule ncalls_Calls)
  have step: "bulk_loop core rank c ff msgs (j * c) results tr
                = bulk_loop core rank c ff msgs (Suc j * c) ?results ?tr"
    using quiet_batch [OF quiet len, of rank] lt
    by (subst bulk_loop.simps) (auto simp: batch_of_def add.commute split: prod.splits sum.splits)
  have ih: "bulk_loop core rank c ff msgs (Suc j * c) ?results ?tr
     = Some (Inr (?results @ map (\<lambda>out. Some (recorded out))
                                    (seq_outcomes core (ncalls ?tr) (drop (Suc j * c) msgs))),
             ?tr @ concat (map (batch_events rank c msgs) [Suc j..<batch_count c (length msgs)]))"
  proof (rule Suc.hyps(1))
    show "d = batch_count c (length msgs) - Suc j" using Suc.hyps(2) by simp
    show "ff \<longrightarrow> (\<forall>out\<in>set (seq_outcomes core (ncalls ?tr) (drop (Suc j * c) msgs)). \<not> isl out)"
      using Suc.prems(1) unfolding split n by auto
    show "Suc j * c < length msgs \<longrightarrow> length ?results = Suc j * c"
      using len by (auto simp: length_batch)
  qed
  have upt: "[j..<batch_count c (length msgs)] = j # [Suc j..<batch_count c (length msgs)]"
    using jlt by (simp add: upt_conv_Cons)
  show ?case
    unfolding step ih upt split n by (simp add: batch_events_def)
qed

lemma calls_Calls [simp]: "calls (map Call ms) = ms"
  by (induction ms) auto

lemma calls_Settles [simp]: "calls (map Settle ks) = []"
  by (induction ks) auto

lemma calls_batch_events [simp]: "calls (batch_events rank c msgs j) = batch_of c msgs j"
  by (simp add: batch_events_def calls_append)

lemma calls_concat: "calls (concat (map f js)) = concat (map (\<lambda>j. calls (f j)) js)"
  by (induction js) (auto simp: calls_append)

lemma concat_batches:
  assumes c: "0 < c"
  shows "concat (map (batch_of c msgs) [j..<batch_count c (length msgs)]) = drop (j * c) msgs"
proof (induction "batch_count c (length msgs) - j" arbitrary: j)
  case 0
  then have "\<not> j < batch_count c (length msgs)" by simp
  then have "\<not> j * c < length msgs" using c by (simp add: batch_count_less)
  with 0 show ?case by simp
next
  case (Suc d)
  then have jlt: "j < batch_count c (length msgs)" by simp
  have upt: "[j..<batch_count c (length msgs)] = j # [Suc j..<batch_count c (length msgs)]"
    using jlt by (simp add: upt_conv_Cons)
  have ih: "concat (map (batch_of c msgs) [Suc j..<batch_count c (length msgs)]) = drop (Suc j * c) msgs"
    using Suc.hyps(2) by (intro Suc.hyps(1)) simp
  have "concat (map (batch_of c msgs) [j..<batch_count c (length msgs)])
          = batch_of c msgs j @ drop (Suc j * c) msgs"
    unfolding upt using ih by simp
  also have "\<dots> = drop (j * c) msgs" by (rule drop_batch [symmetric])
  finally show ?case .
qed

lemma recorded_outcomes:
  "map (\<lambda>out. Some (recorded out)) (seq_outcomes core n msgs)
     = map (\<lambda>i. Some (recorded (core (n + i) (msgs ! i)))) [0..<length msgs]"
  by (rule nth_equalityI) (simp_all add: seq_outcomes_nth)

lemma set_seq_outcomes:
  "set (seq_outcomes core n msgs) = (\<lambda>i. core (n + i) (msgs ! i)) ` {..<length msgs}"
proof -
  have "seq_outcomes core n msgs = map (\<lambda>i. core (n + i) (msgs ! i)) [0..<length msgs]"
    by (rule nth_equalityI) (simp_all add: seq_outcomes_nth)
  then show ?thesis by (simp add: atLeast0LessThan)
qed

text \<open>The whole call when no batch promise rejects.\<close>

lemma verifyBulk_quiet:
  assumes c: "opt_concurrency options \<noteq> Some 0"
    and quiet: "opt_failFast options = Some True \<longrightarrow>
                  (\<forall>i<length msgs. \<not> isl (core (ncalls tr + i) (msgs ! i)))"
  shows "verifyBulk core rank msgs options tr
           = Some (Inr (map (\<lambda>i. Some (recorded (core (ncalls tr + i) (msgs ! i)))) [0..<length msgs]),
                   tr @ concat (map (batch_events rank (concurrency_of options) msgs)
                                  [0..<batch_count (concurrency_of options) (length msgs)]))"
proof -
  let ?c = "concurrency_of options"
  let ?ff = "failFast_of options"
  have c0: "0 < ?c" using c by (cases "opt_concurrency options") (auto simp: concurrency_of_def)
  have q: "?ff \<longrightarrow> (\<forall>out\<in>set (seq_outcomes core (ncalls tr) (drop (0 * ?c) msgs)). \<not> isl out)"
    using quiet by (cases "opt_failFast options") (auto simp: set_seq_outcomes failFast_of_def)
  have l: "0 * ?c < length msgs \<longrightarrow> length ([] :: ISmsResponse option list) = 0 * ?c" by simp
  from bulk_loop_quiet [OF c0 q l, of rank]
  show ?thesis by (simp add: verifyBulk_def recorded_outcomes)
qed

text \<open>
  Claim C1. Without fail-fast and with a concurrency of at least 1 (or the default),
  \<open>verifyBulk\<close> returns an array of exactly as many entries as there are messages, without
  holes, whose entry \<open>i\<close> is what was recorded for the send of message \<open>i\<close>: its response,
  or the response built from what it threw. The array is the same for every completion
  order \<open>rank\<close>.
\<close>

theorem verifyBulk_results_in_input_order:
  assumes "opt_concurrency options \<noteq> Some 0" and "opt_failFast options \<noteq> Some True"
  shows "\<exists>rs tr'. verifyBulk core rank msgs options tr = Some (Inr rs, tr')
           \<and> length rs = length msgs
           \<and> (\<forall>i<length msgs. rs ! i = Some (recorded (core (ncalls tr + i) (msgs ! i))))
           \<and> (\<forall>rank'. map_option fst (verifyBulk core rank' msgs options tr) = Some (Inr rs))"
proof -
  let ?rs = "map (\<lambda>i. Some (recorded (core (ncalls tr + i) (msgs ! i)))) [0..<length msgs]"
  have q: "opt_failFast options = Some True \<longrightarrow>
             (\<forall>i<length msgs. \<not> isl (core (ncalls tr + i) (msgs ! i)))"
    using assms(2) by simp
  have "\<exists>tr'. verifyBulk core r msgs options tr = Some (Inr ?rs, tr')" for r
    using verifyBulk_quiet [OF assms(1) q, of r] by blast
  then have "\<exists>tr'. verifyBulk core rank msgs options tr = Some (Inr ?rs, tr')"
    and "\<forall>rank'. map_option fst (verifyBulk core rank' msgs options tr) = Some (Inr ?rs)"
    by force+
  moreover have "length ?rs = length msgs" by simp
  moreover have "\<forall>i<length msgs. ?rs ! i = Some (recorded (core (ncalls tr + i) (msgs ! i)))"
    by simp
  ultimately show ?thesis by blast
qed

theorem verifyBulk_results_in_input_order_witness:
  "\<exists>tr'. verifyBulk sample_core (\<lambda>k. 10 - k)
            [sample_message ''+1'', sample_message '''', sample_message ''+3'']
            \<lparr>opt_concurrency = Some 2, opt_failFast = None\<rparr> []
          = Some (Inr [Some accepted,
                       Some \<lparr>success = False, messageId = None,
                             error = Some ''Phone number is required'',
                             errorCode = Some ''VALIDATION_ERROR''\<rparr>,
                       Some accepted], tr')"
proof -
  let ?opts = "\<lparr>opt_concurrency = Some 2, opt_failFast = None\<rparr>"
  let ?msgs = "[sample_message ''+1'', sample_message '''', sample_message ''+3'']"
  have h1: "opt_concurrency ?opts \<noteq> Some 0" by simp
  have h2: "opt_failFast ?opts \<noteq> Some True" by simp
  from verifyBulk_results_in_input_order [OF h1 h2, of sample_core "\<lambda>k. 10 - k" ?msgs "[]"]
  obtain rs tr' where r: "verifyBulk sample_core (\<lambda>k. 10 - k) ?msgs ?opts [] = Some (Inr rs, tr')"
    "length rs = 3"
    "\<forall>i<3. rs ! i = Some (recorded (sample_core (ncalls [] + i) (?msgs ! i)))"
    by auto
  have "rs ! 0 = Some accepted" "rs ! 1 = Some (errorResponse (SmsException ''Phone number is required'' ''VALIDATION_ERROR''))"
       "rs ! Suc (Suc 0) = Some accepted"
    using r(3) by (simp_all add: recorded_def sample_core_def sample_message_def numeral_2_eq_2)
  then have "rs = [Some accepted, Some (errorResponse (SmsException ''Phone number is required'' ''VALIDATION_ERROR'')), Some accepted]"
    using r(2) by (intro nth_equalityI) (auto simp: less_Suc_eq numeral_3_eq_3)
  with r(1) show ?thesis by (simp add: errorResponse_def)
qed




text \<open>
  Claim C5. A response with \<open>success = False\<close> that a send returns does not trigger
  fail-fast. Whatever \<open>failFast\<close> is, as long as no thrown exception meets fail-fast (that
  is, \<open>failFast\<close> is off or no send throws), \<open>verifyBulk\<close> returns normally, the response
  of every send that returned one, successful or not, is at the index of its message, and
  the sends of the call are exactly the input messages, each once and in order: nothing is
  retried and nothing is left out. And whenever the call throws, \<open>failFast\<close> is set and some
  send has thrown.
\<close>

theorem verifyBulk_rejection_is_not_fail_fast:
  assumes "opt_concurrency options \<noteq> Some 0"
  shows "(opt_failFast options \<noteq> Some True
            \<or> (\<forall>i<length msgs. \<not> isl (core (ncalls tr + i) (msgs ! i))) \<longrightarrow>
            (\<exists>rs tr'. verifyBulk core rank msgs options tr = Some (Inr rs, tr')
               \<and> length rs = length msgs
               \<and> (\<forall>i response. i < length msgs \<and> core (ncalls tr + i) (msgs ! i) = Inr response
                     \<longrightarrow> rs ! i = Some response)
               \<and> calls tr' = calls tr @ msgs))
       \<and> (\<forall>err tr'. verifyBulk core rank msgs options tr = Some (Inl err, tr') \<longrightarrow>
            opt_failFast options = Some True
            \<and> (\<exists>i<length msgs. isl (core (ncalls tr + i) (msgs ! i))))"
proof (intro conjI impI allI)
  let ?c = "concurrency_of options"
  have c0: "0 < ?c" using assms by (cases "opt_concurrency options") (auto simp: concurrency_of_def)
  assume "opt_failFast options \<noteq> Some True
            \<or> (\<forall>i<length msgs. \<not> isl (core (ncalls tr + i) (msgs ! i)))"
  then have q: "opt_failFast options = Some True \<longrightarrow>
             (\<forall>i<length msgs. \<not> isl (core (ncalls tr + i) (msgs ! i)))"
    by blast
  let ?rs = "map (\<lambda>i. Some (recorded (core (ncalls tr + i) (msgs ! i)))) [0..<length msgs]"
  let ?tr = "tr @ concat (map (batch_events rank ?c msgs) [0..<batch_count ?c (length msgs)])"
  have res: "verifyBulk core rank msgs options tr = Some (Inr ?rs, ?tr)"
    by (rule verifyBulk_quiet [OF assms q])
  have "calls ?tr = calls tr @ concat (map (batch_of ?c msgs) [0..<batch_count ?c (length msgs)])"
    by (simp add: calls_append calls_concat)
  then have calls: "calls ?tr = calls tr @ msgs"
    using concat_batches [OF c0, of msgs 0] by simp
  have nth: "\<forall>i response. i < length msgs \<and> core (ncalls tr + i) (msgs ! i) = Inr response
               \<longrightarrow> ?rs ! i = Some response"
    by (simp add: recorded_def)
  have "length ?rs = length msgs" by simp
  with res nth calls
  show "\<exists>rs tr'. verifyBulk core rank msgs options tr = Some (Inr rs, tr')
               \<and> length rs = length msgs
               \<and> (\<forall>i response. i < length msgs \<and> core (ncalls tr + i) (msgs ! i) = Inr response
                     \<longrightarrow> rs ! i = Some response)
               \<and> calls tr' = calls tr @ msgs"
    by blast
next
  fix err tr'
  assume thr: "verifyBulk core rank msgs options tr = Some (Inl err, tr')"
  show "opt_failFast options = Some True"
  proof (rule ccontr)
    assume "opt_failFast options \<noteq> Some True"
    then have "opt_failFast options = Some True \<longrightarrow>
             (\<forall>i<length msgs. \<not> isl (core (ncalls tr + i) (msgs ! i)))" by simp
    from verifyBulk_quiet [OF assms this, of rank] thr show False by simp
  qed
next
  fix err tr'
  assume thr: "verifyBulk core rank msgs options tr = Some (Inl err, tr')"
  show "\<exists>i<length msgs. isl (core (ncalls tr + i) (msgs ! i))"
  proof (rule ccontr)
    assume "\<not> (\<exists>i<length msgs. isl (core (ncalls tr + i) (msgs ! i)))"
    then have "opt_failFast options = Some True \<longrightarrow>
             (\<forall>i<length msgs. \<not> isl (core (ncalls tr + i) (msgs ! i)))" by simp
    from verifyBulk_quiet [OF assms this, of rank] thr show False by simp
  qed
qed

theorem verifyBulk_rejection_is_not_fail_fast_witness:
  "\<exists>rs tr'. verifyBulk sample_core (\<lambda>k. k)
        [sample_message ''0'', sample_message ''+2'', sample_message ''+3'']
        \<lparr>opt_concurrency = Some 2, opt_failFast = Some True\<rparr> [] = Some (Inr rs, tr')
     \<and> length rs = 3 \<and> rs ! 0 = Some rejected \<and> rs ! 1 = Some accepted \<and> rs ! 2 = Some accepted
     \<and> calls tr' = [sample_message ''0'', sample_message ''+2'', sample_message ''+3'']"
proof -
  let ?opts = "\<lparr>opt_concurrency = Some 2, opt_failFast = Some True\<rparr>"
  let ?msgs = "[sample_message ''0'', sample_message ''+2'', sample_message ''+3'']"
  have h1: "opt_concurrency ?opts \<noteq> Some 0" by simp
  have out: "sample_core (ncalls [] + 0) (?msgs ! 0) = Inr rejected"
       "sample_core (ncalls [] + 1) (?msgs ! 1) = Inr accepted"
       "sample_core (ncalls [] + 2) (?msgs ! 2) = Inr accepted"
    by (simp_all add: sample_core_def sample_message_def)
  have h2: "opt_failFast ?opts \<noteq> Some True
              \<or> (\<forall>i<length ?msgs. \<not> isl (sample_core (ncalls [] + i) (?msgs ! i)))"
    using out by (auto simp: less_Suc_eq numeral_3_eq_3)
  from verifyBulk_rejection_is_not_fail_fast [OF h1, of ?msgs sample_core "[]" "\<lambda>k. k"] h2
  obtain rs tr' where r: "verifyBulk sample_core (\<lambda>k. k) ?msgs ?opts [] = Some (Inr rs, tr')"
    "length rs = length ?msgs"
    "\<forall>i response. i < length ?msgs \<and> sample_core (ncalls [] + i) (?msgs ! i) = Inr response
        \<longrightarrow> rs ! i = Some response"
    "calls tr' = calls [] @ ?msgs"
    by blast
  from r(3) [rule_format, of 0 rejected] out(1) have a: "rs ! 0 = Some rejected" by simp
  from r(3) [rule_format, of 1 accepted] out(2) have b: "rs ! 1 = Some accepted" by simp
  from r(3) [rule_format, of 2 accepted] out(3) have c: "rs ! 2 = Some accepted" by simp
  from r(1,2,4) a b c show ?thesis by auto
qed

lemma batch_nth:
  "k < length (batch_of c msgs j) \<Longrightarrow> batch_of c msgs j ! k = msgs ! (j * c + k)"
proof -
  assume k: "k < length (batch_of c msgs j)"
  then have "k < length msgs - j * c" "k < c" by (simp_all add: batch_of_def slice_def)
  then have "j * c \<le> length msgs" "k < c" by arith+
  then show ?thesis by (simp add: batch_of_def slice_def nth_drop)
qed

lemma find_Some_set: "find Q xs = Some k \<Longrightarrow> k \<in> set xs \<and> Q k"
  by (induction xs) (auto split: if_splits)

lemma batch_outcome_nth:
  assumes "k < length (batch_of c msgs j)"
  shows "seq_outcomes core (base + j * c) (batch_of c msgs j) ! k = core (base + (j * c + k)) (msgs ! (j * c + k))"
  using assms by (simp add: seq_outcomes_nth batch_nth add.assoc)

lemma find_takeWhile:
  "find Q xs = Some k \<Longrightarrow>
     takeWhile (\<lambda>x. \<not> Q x) xs @ [k] = take (Suc (length (takeWhile (\<lambda>x. \<not> Q x) xs))) xs"
  by (induction xs) (auto split: if_splits)

lemma find_sort_key_least:
  assumes "find Q (sort_key f xs) = Some k"
  shows "k \<in> set xs \<and> Q k \<and> (\<forall>x\<in>set xs. Q x \<longrightarrow> f k \<le> f x)"
proof -
  let ?ys = "sort_key f xs"
  from assms obtain i where i: "i < length ?ys" "Q (?ys ! i)" "k = ?ys ! i" "\<forall>j<i. \<not> Q (?ys ! j)"
    by (auto simp: find_Some_iff)
  have srt: "sorted (map f ?ys)" by simp
  have "f k \<le> f x" if "x \<in> set xs" "Q x" for x
  proof -
    from that(1) have "x \<in> set ?ys" by simp
    then obtain j where j: "j < length ?ys" "x = ?ys ! j" by (metis in_set_conv_nth)
    with that(2) i(4) have "i \<le> j" by (meson not_le_imp_less)
    with srt j(1) have "map f ?ys ! i \<le> map f ?ys ! j"
      by (intro sorted_nth_mono) simp_all
    with i j show ?thesis by simp
  qed
  moreover have "k \<in> set xs" using find_Some_set [OF assms] by simp
  ultimately show ?thesis using i(2,3) by blast
qed

text \<open>A batch with fail-fast in which some send throws.\<close>

lemma throwing_batch:
  assumes n: "ncalls tr = base + j * c"
    and thr: "\<exists>k. j * c \<le> k \<and> k < j * c + length (batch_of c msgs j)
                \<and> isl (core (base + k) (msgs ! k))"
  shows "\<exists>k err. find (\<lambda>k. isl (core (base + k) (msgs ! k)))
                    (settle_order rank (j * c) (length (batch_of c msgs j))) = Some k
           \<and> core (base + k) (msgs ! k) = Inl err
           \<and> (case batchPromises core True (j * c) (batch_of c msgs j) 0 tr of
                (promises, tr1) \<Rightarrow> promise_all rank (j * c) promises tr1)
             = (Inl err,
                tr @ map Call (batch_of c msgs j)
                   @ map Settle (takeWhile (\<lambda>k. \<not> isl (core (base + k) (msgs ! k)))
                                   (settle_order rank (j * c) (length (batch_of c msgs j))) @ [k]))"
proof -
  let ?b = "batch_of c msgs j"
  let ?i = "j * c"
  let ?o = "\<lambda>k. core (base + k) (msgs ! k)"
  let ?order = "settle_order rank ?i (length ?b)"
  let ?ps = "map (\<lambda>(k, out). batch_promise True (?i + k) out)
               (enumerate 0 (seq_outcomes core (ncalls tr) ?b))"
  have len: "length ?ps = length ?b" by simp
  have ps: "?ps ! (k - ?i) = batch_promise True k (?o k)" if "k \<in> set ?order" for k
  proof -
    from that have k: "?i \<le> k" "k - ?i < length ?b" by auto
    then have "?ps ! (k - ?i) = batch_promise True (?i + (k - ?i))
                 (seq_outcomes core (base + ?i) ?b ! (k - ?i))"
      by (simp add: nth_enumerate_eq n)
    also have "\<dots> = batch_promise True k (?o k)"
      using k by (simp add: batch_outcome_nth)
    finally show ?thesis .
  qed
  have isl: "isl (?ps ! (k - ?i)) = isl (?o k)" if "k \<in> set ?order" for k
    unfolding ps [OF that] by (simp add: batch_promise_def split: sum.splits)
  have f: "find (\<lambda>k. isl (?ps ! (k - ?i))) ?order = find (\<lambda>k. isl (?o k)) ?order"
    by (rule find_cong) (simp_all add: isl del: set_settle_order)
  have t: "takeWhile (\<lambda>k. \<not> isl (?ps ! (k - ?i))) ?order = takeWhile (\<lambda>k. \<not> isl (?o k)) ?order"
    by (rule takeWhile_cong) (simp_all add: isl del: set_settle_order)
  from thr obtain k0 where "k0 \<in> set ?order" "isl (?o k0)" by auto
  then have "find (\<lambda>k. isl (?o k)) ?order \<noteq> None" by (auto simp: find_None_iff)
  then obtain k where k: "find (\<lambda>k. isl (?o k)) ?order = Some k" by blast
  then have kin: "k \<in> set ?order" and kisl: "isl (?o k)"
    using find_Some_set [of "\<lambda>k. isl (?o k)" ?order k] by blast+
  then obtain err where err: "?o k = Inl err" by (auto simp: isl_def)
  have pk: "projl (?ps ! (k - ?i)) = err"
    unfolding ps [OF kin] using err by (simp add: batch_promise_def)
  have "promise_all rank ?i ?ps (tr @ map Call ?b)
          = (Inl err, (tr @ map Call ?b) @ map Settle (takeWhile (\<lambda>k. \<not> isl (?o k)) ?order @ [k]))"
    unfolding promise_all_def Let_def len f t k using pk by simp
  then show ?thesis using k err by (simp add: batchPromises_eq)
qed

lemma bulk_loop_step:
  assumes lt: "j * c < length msgs"
    and quiet: "ff \<longrightarrow> (\<forall>out\<in>set (seq_outcomes core (ncalls tr) (batch_of c msgs j)). \<not> isl out)"
    and len: "length results = j * c"
  shows "bulk_loop core rank c ff msgs (j * c) results tr
           = bulk_loop core rank c ff msgs (Suc j * c)
               (results @ map (\<lambda>out. Some (recorded out))
                            (seq_outcomes core (ncalls tr) (batch_of c msgs j)))
               (tr @ batch_events rank c msgs j)"
  using quiet_batch [OF quiet len, of rank] lt
  by (subst bulk_loop.simps)
     (auto simp: batch_of_def batch_events_def add.commute split: prod.splits sum.splits)

lemma bulk_loop_throws:
  assumes c: "0 < c"
  shows "j \<le> j0 \<Longrightarrow> ncalls tr = base + j * c \<Longrightarrow> length results = j * c \<Longrightarrow>
         \<forall>k. j * c \<le> k \<and> k < j0 * c \<longrightarrow> \<not> isl (core (base + k) (msgs ! k)) \<Longrightarrow>
         \<exists>k. j0 * c \<le> k \<and> k < j0 * c + length (batch_of c msgs j0)
              \<and> isl (core (base + k) (msgs ! k)) \<Longrightarrow>
         \<exists>k err. find (\<lambda>k. isl (core (base + k) (msgs ! k)))
                    (settle_order rank (j0 * c) (length (batch_of c msgs j0))) = Some k
           \<and> core (base + k) (msgs ! k) = Inl err
           \<and> bulk_loop core rank c True msgs (j * c) results tr
               = Some (Inl err,
                       tr @ concat (map (batch_events rank c msgs) [j..<j0])
                          @ map Call (batch_of c msgs j0)
                          @ map Settle (takeWhile (\<lambda>k. \<not> isl (core (base + k) (msgs ! k)))
                                          (settle_order rank (j0 * c) (length (batch_of c msgs j0)))
                                        @ [k]))"
proof (induction "j0 - j" arbitrary: j results tr)
  case 0
  then have j: "j = j0" by simp
  from 0 have "0 < length (batch_of c msgs j0)" by auto
  then have lt: "j0 * c < length msgs" by (simp add: length_batch)
  from throwing_batch [of tr base j0 c msgs core rank] 0 j
  obtain k err where k: "find (\<lambda>k. isl (core (base + k) (msgs ! k)))
                    (settle_order rank (j0 * c) (length (batch_of c msgs j0))) = Some k"
    "core (base + k) (msgs ! k) = Inl err"
    "(case batchPromises core True (j0 * c) (batch_of c msgs j0) 0 tr of
                (promises, tr1) \<Rightarrow> promise_all rank (j0 * c) promises tr1)
             = (Inl err,
                tr @ map Call (batch_of c msgs j0)
                   @ map Settle (takeWhile (\<lambda>k. \<not> isl (core (base + k) (msgs ! k)))
                                   (settle_order rank (j0 * c) (length (batch_of c msgs j0))) @ [k]))"
    by blast
  have "bulk_loop core rank c True msgs (j0 * c) results tr
          = Some (Inl err,
                tr @ map Call (batch_of c msgs j0)
                   @ map Settle (takeWhile (\<lambda>k. \<not> isl (core (base + k) (msgs ! k)))
                                   (settle_order rank (j0 * c) (length (batch_of c msgs j0))) @ [k]))"
    using k(3) lt
    by (subst bulk_loop.simps) (auto simp: batch_of_def add.commute split: prod.splits)
  with k(1,2) j show ?case by simp
next
  case (Suc d)
  then have jlt: "j < j0" by simp
  then have "Suc j \<le> j0" by simp
  then have le: "Suc j * c \<le> j0 * c" by (rule mult_le_mono1)
  from Suc.prems have "0 < length (batch_of c msgs j0)" by auto
  then have lt0: "j0 * c < length msgs" by (simp add: length_batch)
  with le have lt: "j * c < length msgs" and full: "Suc j * c < length msgs" by simp_all
  have lenb: "length (batch_of c msgs j) = c" using full by (simp add: length_batch)
  let ?b = "batch_of c msgs j"
  let ?results = "results @ map (\<lambda>out. Some (recorded out)) (seq_outcomes core (ncalls tr) ?b)"
  let ?tr = "tr @ batch_events rank c msgs j"
  have quiet: "True \<longrightarrow> (\<forall>out\<in>set (seq_outcomes core (ncalls tr) ?b). \<not> isl out)"
  proof (intro impI ballI)
    fix out assume "out \<in> set (seq_outcomes core (ncalls tr) ?b)"
    then obtain k where k: "k < length ?b" "out = seq_outcomes core (base + j * c) ?b ! k"
      unfolding Suc.prems(2) by (metis in_set_conv_nth length_seq_outcomes)
    then have "out = core (base + (j * c + k)) (msgs ! (j * c + k))"
      by (simp add: batch_outcome_nth)
    moreover have "j * c \<le> j * c + k \<and> j * c + k < j0 * c" using k(1) lenb le by simp
    ultimately show "\<not> isl out" using Suc.prems(4) by blast
  qed
  have step: "bulk_loop core rank c True msgs (j * c) results tr
                = bulk_loop core rank c True msgs (Suc j * c) ?results ?tr"
    by (rule bulk_loop_step [OF lt quiet Suc.prems(3)])
  have n: "ncalls ?tr = base + Suc j * c"
    unfolding batch_events_def using ncalls_Calls [of tr ?b] Suc.prems(2) lenb by simp
  have "\<exists>k err. find (\<lambda>k. isl (core (base + k) (msgs ! k)))
                    (settle_order rank (j0 * c) (length (batch_of c msgs j0))) = Some k
           \<and> core (base + k) (msgs ! k) = Inl err
           \<and> bulk_loop core rank c True msgs (Suc j * c) ?results ?tr
               = Some (Inl err,
                       ?tr @ concat (map (batch_events rank c msgs) [Suc j..<j0])
                          @ map Call (batch_of c msgs j0)
                          @ map Settle (takeWhile (\<lambda>k. \<not> isl (core (base + k) (msgs ! k)))
                                          (settle_order rank (j0 * c) (length (batch_of c msgs j0)))
                                        @ [k]))"
  proof (rule Suc.hyps(1))
    show "d = j0 - Suc j" using Suc.hyps(2) by simp
    show "Suc j \<le> j0" using jlt by simp
    show "ncalls ?tr = base + Suc j * c" by (rule n)
    show "length ?results = Suc j * c" using Suc.prems(3) lenb by simp
    show "\<forall>k. Suc j * c \<le> k \<and> k < j0 * c \<longrightarrow> \<not> isl (core (base + k) (msgs ! k))"
      using Suc.prems(4) by simp
    show "\<exists>k. j0 * c \<le> k \<and> k < j0 * c + length (batch_of c msgs j0)
              \<and> isl (core (base + k) (msgs ! k))"
      by (rule Suc.prems(5))
  qed
  moreover have "[j..<j0] = j # [Suc j..<j0]" using jlt by (simp add: upt_conv_Cons)
  ultimately show ?case unfolding step by simp
qed

lemma concat_batches_take: "concat (map (batch_of c msgs) [0..<j]) = take (j * c) msgs"
proof (induction j)
  case 0
  then show ?case by simp
next
  case (Suc j)
  have "take (j * c) msgs @ batch_of c msgs j = take (j * c + c) msgs"
    by (simp add: batch_of_def slice_def take_add)
  with Suc show ?case by (simp add: add.commute)
qed

text \<open>The whole call with fail-fast when some send throws.\<close>

lemma verifyBulk_throws:
  assumes c: "opt_concurrency options \<noteq> Some 0"
    and ff: "opt_failFast options = Some True"
    and thr: "\<exists>i<length msgs. isl (core (ncalls tr + i) (msgs ! i))"
  shows "\<exists>k err n. k < length msgs \<and> core (ncalls tr + k) (msgs ! k) = Inl err
           \<and> (\<forall>i<length msgs. isl (core (ncalls tr + i) (msgs ! i)) \<longrightarrow>
                 k div concurrency_of options \<le> i div concurrency_of options
                 \<and> (i div concurrency_of options = k div concurrency_of options \<longrightarrow> rank k \<le> rank i))
           \<and> length (batch_of (concurrency_of options) msgs (k div concurrency_of options)) < n
           \<and> verifyBulk core rank msgs options tr
               = Some (Inl err,
                       tr @ concat (map (batch_events rank (concurrency_of options) msgs)
                                      [0..<k div concurrency_of options])
                          @ take n (batch_events rank (concurrency_of options) msgs
                                      (k div concurrency_of options)))"
proof -
  let ?c = "concurrency_of options"
  let ?o = "\<lambda>k. core (ncalls tr + k) (msgs ! k)"
  let ?P = "\<lambda>i. i < length msgs \<and> isl (?o i)"
  have c0: "0 < ?c" using c by (cases "opt_concurrency options") (auto simp: concurrency_of_def)
  have fft: "failFast_of options = True" using ff by (simp add: failFast_of_def)
  define i0 where "i0 = (LEAST i. ?P i)"
  define j0 where "j0 = i0 div ?c"
  from thr have ex: "\<exists>i. ?P i" by blast
  have i0: "?P i0" unfolding i0_def using ex by (rule LeastI_ex)
  have least: "i0 \<le> i" if "?P i" for i unfolding i0_def using that by (rule Least_le)
  have lo: "j0 * ?c \<le> i0" unfolding j0_def by simp
  have div_hi: "i < i div ?c * ?c + ?c" for i
  proof -
    have "i div ?c * ?c + i mod ?c = i" by simp
    moreover have "i mod ?c < ?c" using c0 by simp
    ultimately show ?thesis by linarith
  qed
  have hi: "i0 < j0 * ?c + ?c" unfolding j0_def by (rule div_hi)
  let ?b = "batch_of ?c msgs j0"
  let ?order = "settle_order rank (j0 * ?c) (length ?b)"
  have inb: "i0 < j0 * ?c + length ?b" using i0 lo hi unfolding length_batch by arith
  have quiet: "\<forall>k. 0 * ?c \<le> k \<and> k < j0 * ?c \<longrightarrow> \<not> isl (?o k)"
  proof (intro allI impI)
    fix k assume "0 * ?c \<le> k \<and> k < j0 * ?c"
    then have "k < i0" using lo by simp
    then show "\<not> isl (?o k)" using least [of k] i0 by auto
  qed
  have thrower: "\<exists>k. j0 * ?c \<le> k \<and> k < j0 * ?c + length ?b \<and> isl (?o k)"
    using lo inb i0 by blast
  have n0: "ncalls tr = ncalls tr + 0 * ?c" by simp
  have l0: "length ([] :: ISmsResponse option list) = 0 * ?c" by simp
  from bulk_loop_throws [OF c0 _ n0 l0 quiet thrower, of rank]
  obtain k err where k: "find (\<lambda>k. isl (?o k)) ?order = Some k" "?o k = Inl err"
    "bulk_loop core rank ?c True msgs (0 * ?c) [] tr
       = Some (Inl err,
               tr @ concat (map (batch_events rank ?c msgs) [0..<j0])
                  @ map Call ?b
                  @ map Settle (takeWhile (\<lambda>k. \<not> isl (?o k)) ?order @ [k]))"
    by blast
  from find_sort_key_least [OF k(1) [unfolded settle_order_def]]
  have kin: "j0 * ?c \<le> k" "k < j0 * ?c + length ?b"
    and kmin: "\<forall>x. j0 * ?c \<le> x \<and> x < j0 * ?c + length ?b \<and> isl (?o x) \<longrightarrow> rank k \<le> rank x"
    by auto
  have klen: "k < length msgs" and khi: "k < j0 * ?c + ?c"
    using kin unfolding length_batch by arith+
  have kdiv: "k div ?c = j0"
    using kin(1) khi by (intro div_nat_eqI) (simp_all add: mult.commute)
  have first: "k div ?c \<le> i div ?c \<and> (i div ?c = k div ?c \<longrightarrow> rank k \<le> rank i)"
    if "i < length msgs" "isl (?o i)" for i
  proof
    have "i0 \<le> i" using that least by blast
    then show "k div ?c \<le> i div ?c" unfolding kdiv j0_def by (rule div_le_mono)
    show "i div ?c = k div ?c \<longrightarrow> rank k \<le> rank i"
    proof
      assume "i div ?c = k div ?c"
      then have d: "i div ?c = j0" using kdiv by simp
      have "i div ?c * ?c \<le> i" by simp
      then have "j0 * ?c \<le> i" unfolding d .
      moreover have "i < j0 * ?c + ?c" using div_hi [of i] unfolding d .
      ultimately have "j0 * ?c \<le> i \<and> i < j0 * ?c + length ?b" using that(1)
        unfolding length_batch by arith
      with kmin that(2) show "rank k \<le> rank i" by blast
    qed
  qed
  let ?n = "length ?b + Suc (length (takeWhile (\<lambda>k. \<not> isl (?o k)) ?order))"
  have tk: "map Call ?b @ map Settle (takeWhile (\<lambda>k. \<not> isl (?o k)) ?order @ [k])
              = take ?n (batch_events rank ?c msgs j0)"
    unfolding find_takeWhile [OF k(1)] batch_events_def by (simp add: take_map)
  have vb: "verifyBulk core rank msgs options tr
          = Some (Inl err, tr @ concat (map (batch_events rank ?c msgs) [0..<k div ?c])
                              @ take ?n (batch_events rank ?c msgs (k div ?c)))"
    using k(3) unfolding tk [symmetric] kdiv by (simp add: verifyBulk_def fft)
  have ln: "length (batch_of ?c msgs (k div ?c)) < ?n" unfolding kdiv by simp
  have all: "\<forall>i<length msgs. isl (?o i) \<longrightarrow>
                 k div ?c \<le> i div ?c \<and> (i div ?c = k div ?c \<longrightarrow> rank k \<le> rank i)"
    using first by blast
  show ?thesis
    apply (rule exI [of _ k], rule exI [of _ err], rule exI [of _ ?n])
    using klen k(2) all ln vb by (intro conjI)
qed

lemma calls_take_batch_events:
  "length (batch_of c msgs j) < n \<Longrightarrow> calls (take n (batch_events rank c msgs j)) = batch_of c msgs j"
proof -
  assume "length (batch_of c msgs j) < n"
  then have "take n (batch_events rank c msgs j)
     = map Call (batch_of c msgs j)
       @ map Settle (take (n - length (batch_of c msgs j))
                       (settle_order rank (j * c) (length (batch_of c msgs j))))"
    by (simp add: batch_events_def take_map)
  then show ?thesis by (simp add: calls_append)
qed

lemma calls_batches_take:
  "calls (concat (map (batch_events rank c msgs) [0..<j])) = take (j * c) msgs"
  by (simp add: calls_concat concat_batches_take)

text \<open>
  Claim C3. With fail-fast and a concurrency of at least 1 (or the default), if some send
  throws, \<open>verifyBulk\<close> throws: the outcome is a thrown value and no array, whatever was
  computed before. The value is the one thrown by the send of some message \<open>k\<close>, where \<open>k\<close>
  lies in the first batch that contains a throwing send and no throwing send of that batch
  settles before it; so when only one send of that batch throws, it is the value thrown
  there. The messages sent are those of the batches up to and including the batch of \<open>k\<close>:
  no later batch is started.
\<close>

theorem verifyBulk_fail_fast_throws:
  assumes "opt_concurrency options \<noteq> Some 0"
    and "opt_failFast options = Some True"
    and "\<exists>i<length msgs. isl (core (ncalls tr + i) (msgs ! i))"
  shows "\<exists>k err tr'. k < length msgs \<and> core (ncalls tr + k) (msgs ! k) = Inl err
           \<and> verifyBulk core rank msgs options tr = Some (Inl err, tr')
           \<and> (\<forall>i<length msgs. isl (core (ncalls tr + i) (msgs ! i)) \<longrightarrow>
                 k div concurrency_of options \<le> i div concurrency_of options
                 \<and> (i div concurrency_of options = k div concurrency_of options \<longrightarrow> rank k \<le> rank i))
           \<and> calls tr' = calls tr @ take (Suc (k div concurrency_of options) * concurrency_of options) msgs"
proof -
  let ?c = "concurrency_of options"
  from verifyBulk_throws [OF assms, of rank]
  obtain k err n where k: "k < length msgs" "core (ncalls tr + k) (msgs ! k) = Inl err"
    "\<forall>i<length msgs. isl (core (ncalls tr + i) (msgs ! i)) \<longrightarrow>
        k div ?c \<le> i div ?c \<and> (i div ?c = k div ?c \<longrightarrow> rank k \<le> rank i)"
    "length (batch_of ?c msgs (k div ?c)) < n"
    "verifyBulk core rank msgs options tr
       = Some (Inl err, tr @ concat (map (batch_events rank ?c msgs) [0..<k div ?c])
                           @ take n (batch_events rank ?c msgs (k div ?c)))"
    by blast
  let ?tr = "tr @ concat (map (batch_events rank ?c msgs) [0..<k div ?c])
                           @ take n (batch_events rank ?c msgs (k div ?c))"
  have "concat (map (batch_of ?c msgs) [0..<Suc (k div ?c)]) = take (Suc (k div ?c) * ?c) msgs"
    by (rule concat_batches_take)
  then have "take (k div ?c * ?c) msgs @ batch_of ?c msgs (k div ?c) = take (Suc (k div ?c) * ?c) msgs"
    by (simp add: concat_batches_take)
  then have "calls ?tr = calls tr @ take (Suc (k div ?c) * ?c) msgs"
    by (simp add: calls_append calls_take_batch_events [OF k(4)] calls_batches_take)
  with k(1,2,3,5) show ?thesis by blast
qed

theorem verifyBulk_fail_fast_throws_witness:
  "\<exists>tr'. verifyBulk sample_core (\<lambda>k. k)
           [sample_message ''+1'', sample_message '''', sample_message ''+3'']
           \<lparr>opt_concurrency = Some 1, opt_failFast = Some True\<rparr> []
         = Some (Inl (SmsException ''Phone number is required'' ''VALIDATION_ERROR''), tr')
      \<and> calls tr' = [sample_message ''+1'', sample_message '''']"
proof -
  let ?opts = "\<lparr>opt_concurrency = Some 1, opt_failFast = Some True\<rparr>"
  let ?msgs = "[sample_message ''+1'', sample_message '''', sample_message ''+3'']"
  have out: "sample_core (ncalls [] + 0) (?msgs ! 0) = Inr accepted"
       "sample_core (ncalls [] + 1) (?msgs ! 1) = Inl (SmsException ''Phone number is required'' ''VALIDATION_ERROR'')"
       "sample_core (ncalls [] + 2) (?msgs ! 2) = Inr accepted"
    by (simp_all add: sample_core_def sample_message_def)
  have h1: "opt_concurrency ?opts \<noteq> Some 0" by simp
  have h2: "opt_failFast ?opts = Some True" by simp
  have h3: "\<exists>i<length ?msgs. isl (sample_core (ncalls [] + i) (?msgs ! i))"
    using out(2) by (intro exI [of _ 1]) simp
  from verifyBulk_fail_fast_throws [OF h1 h2 h3, of "\<lambda>k. k"]
  obtain k err tr' where k: "k < length ?msgs" "sample_core (ncalls [] + k) (?msgs ! k) = Inl err"
    "verifyBulk sample_core (\<lambda>k. k) ?msgs ?opts [] = Some (Inl err, tr')"
    "calls tr' = calls [] @ take (Suc (k div concurrency_of ?opts) * concurrency_of ?opts) ?msgs"
    by blast
  from k(1) have "k = 0 \<or> k = 1 \<or> k = 2" by auto
  with k(2) out have k1: "k = 1" and err: "err = SmsException ''Phone number is required'' ''VALIDATION_ERROR''"
    by auto
  from k(4) have "calls tr' = [sample_message ''+1'', sample_message '''']"
    unfolding k1 by (simp add: concurrency_of_def)
  with k(3) err show ?thesis by blast
qed

lemma batch_sizes:
  assumes c: "0 < c" and j: "j < batch_count c (length msgs)"
  shows "length (batch_of c msgs j)
           = (if Suc j < batch_count c (length msgs) then c else length msgs - j * c)
         \<and> 0 < length (batch_of c msgs j) \<and> length (batch_of c msgs j) \<le> c"
proof -
  have lt: "j * c < length msgs" using j c by (simp add: batch_count_less)
  have pos: "0 < length (batch_of c msgs j)" using lt c by (simp add: length_batch)
  have le: "length (batch_of c msgs j) \<le> c" by (simp add: length_batch)
  show ?thesis
  proof (cases "Suc j < batch_count c (length msgs)")
    case True
    then have "Suc j * c < length msgs" using c by (simp add: batch_count_less)
    then have "length (batch_of c msgs j) = c" by (simp add: length_batch)
    with True pos le show ?thesis by simp
  next
    case False
    then have "\<not> Suc j * c < length msgs" using c by (simp add: batch_count_less)
    then have "length (batch_of c msgs j) = length msgs - j * c" by (simp add: length_batch)
    with False pos le show ?thesis by simp
  qed
qed

text \<open>
  Claim C2, amended. Let the concurrency \<open>c\<close> be at least 1 (or the default). The batches
  \<open>batch_of c msgs j\<close> are consecutive pieces of the input that make it up in order; each has
  \<open>c\<close> messages, but the last, which has the rest, at least one. The call returns or
  throws, and its trace is that of some number of batches run to their end, one after the
  other, each being all sends of the batch followed by all their settlements, and then
  possibly the start of one more batch. That last part occurs only when the call throws,
  which needs fail-fast: it has every send of that batch and the settlements up to the
  first rejection. So a batch starts only after every send of the batch before has settled.
  The messages sent are an initial part of the input, each sent once; when the call
  returns, as it always does without fail-fast, they are all the input messages.
\<close>

theorem verifyBulk_batches:
  assumes "opt_concurrency options \<noteq> Some 0"
  shows "concat (map (batch_of (concurrency_of options) msgs)
                   [0..<batch_count (concurrency_of options) (length msgs)]) = msgs
       \<and> (\<forall>j<batch_count (concurrency_of options) (length msgs).
             length (batch_of (concurrency_of options) msgs j)
               = (if Suc j < batch_count (concurrency_of options) (length msgs)
                  then concurrency_of options
                  else length msgs - j * concurrency_of options)
             \<and> 0 < length (batch_of (concurrency_of options) msgs j)
             \<and> length (batch_of (concurrency_of options) msgs j) \<le> concurrency_of options)
       \<and> (\<exists>res tr' ran n m.
             verifyBulk core rank msgs options tr = Some (res, tr')
             \<and> ran \<le> batch_count (concurrency_of options) (length msgs)
             \<and> tr' = tr @ concat (map (batch_events rank (concurrency_of options) msgs) [0..<ran])
                         @ take n (batch_events rank (concurrency_of options) msgs ran)
             \<and> (isl res \<longrightarrow> failFast_of options
                    \<and> ran < batch_count (concurrency_of options) (length msgs)
                    \<and> length (batch_of (concurrency_of options) msgs ran) < n)
             \<and> (\<not> isl res \<longrightarrow> ran = batch_count (concurrency_of options) (length msgs)
                    \<and> calls tr' = calls tr @ msgs)
             \<and> (\<not> failFast_of options \<longrightarrow> \<not> isl res)
             \<and> m \<le> length msgs \<and> calls tr' = calls tr @ take m msgs)"
proof (intro conjI)
  let ?c = "concurrency_of options"
  let ?nb = "batch_count ?c (length msgs)"
  have c0: "0 < ?c" using assms by (cases "opt_concurrency options") (auto simp: concurrency_of_def)
  show "concat (map (batch_of ?c msgs) [0..<?nb]) = msgs"
    using concat_batches [OF c0, of msgs 0] by simp
  show "\<forall>j<?nb. length (batch_of ?c msgs j) = (if Suc j < ?nb then ?c else length msgs - j * ?c)
             \<and> 0 < length (batch_of ?c msgs j) \<and> length (batch_of ?c msgs j) \<le> ?c"
    using batch_sizes [OF c0] by blast
  show "\<exists>res tr' ran n m.
             verifyBulk core rank msgs options tr = Some (res, tr')
             \<and> ran \<le> ?nb
             \<and> tr' = tr @ concat (map (batch_events rank ?c msgs) [0..<ran])
                         @ take n (batch_events rank ?c msgs ran)
             \<and> (isl res \<longrightarrow> failFast_of options \<and> ran < ?nb
                    \<and> length (batch_of ?c msgs ran) < n)
             \<and> (\<not> isl res \<longrightarrow> ran = ?nb \<and> calls tr' = calls tr @ msgs)
             \<and> (\<not> failFast_of options \<longrightarrow> \<not> isl res)
             \<and> m \<le> length msgs \<and> calls tr' = calls tr @ take m msgs"
  proof (cases "opt_failFast options = Some True
                  \<and> (\<exists>i<length msgs. isl (core (ncalls tr + i) (msgs ! i)))")
    case False
    then have q: "opt_failFast options = Some True \<longrightarrow>
             (\<forall>i<length msgs. \<not> isl (core (ncalls tr + i) (msgs ! i)))" by blast
    let ?rs = "map (\<lambda>i. Some (recorded (core (ncalls tr + i) (msgs ! i)))) [0..<length msgs]"
    let ?tr = "tr @ concat (map (batch_events rank ?c msgs) [0..<?nb])"
    have res: "verifyBulk core rank msgs options tr = Some (Inr ?rs, ?tr)"
      by (rule verifyBulk_quiet [OF assms q])
    have "calls ?tr = calls tr @ concat (map (batch_of ?c msgs) [0..<?nb])"
      by (simp add: calls_append calls_concat)
    then have calls: "calls ?tr = calls tr @ msgs"
      using concat_batches [OF c0, of msgs 0] by simp
    have tr: "?tr = tr @ concat (map (batch_events rank ?c msgs) [0..<?nb])
                       @ take 0 (batch_events rank ?c msgs ?nb)" by simp
    have f4: "isl (Inr ?rs :: thrown + ISmsResponse option list) \<longrightarrow> failFast_of options \<and> ?nb < ?nb
                    \<and> length (batch_of ?c msgs ?nb) < 0" by simp
    have f5: "\<not> isl (Inr ?rs :: thrown + ISmsResponse option list) \<longrightarrow> ?nb = ?nb \<and> calls ?tr = calls tr @ msgs"
      using calls by simp
    have f6: "\<not> failFast_of options \<longrightarrow> \<not> isl (Inr ?rs :: thrown + ISmsResponse option list)" by simp
    have f8: "calls ?tr = calls tr @ take (length msgs) msgs" using calls by simp
    show ?thesis
      apply (rule exI [of _ "Inr ?rs"], rule exI [of _ ?tr], rule exI [of _ ?nb],
             rule exI [of _ 0], rule exI [of _ "length msgs"])
      apply (intro conjI)
            apply (rule res)
           apply (rule order_refl)
          apply (rule tr)
         apply (rule f4)
        apply (rule f5)
       apply (rule f6)
      apply (rule order_refl)
      apply (rule f8)
      done
  next
    case True
    then have ff: "opt_failFast options = Some True"
      and thr: "\<exists>i<length msgs. isl (core (ncalls tr + i) (msgs ! i))" by blast+
    have fft: "failFast_of options" using ff by (simp add: failFast_of_def)
    from verifyBulk_throws [OF assms ff thr, of rank]
    obtain k err n where k: "k < length msgs"
      "length (batch_of ?c msgs (k div ?c)) < n"
      "verifyBulk core rank msgs options tr
         = Some (Inl err, tr @ concat (map (batch_events rank ?c msgs) [0..<k div ?c])
                             @ take n (batch_events rank ?c msgs (k div ?c)))"
      by blast
    let ?j = "k div ?c"
    let ?tr = "tr @ concat (map (batch_events rank ?c msgs) [0..<?j])
                  @ take n (batch_events rank ?c msgs ?j)"
    have jc: "?j * ?c \<le> k" by simp
    have "?j * ?c < length msgs" using jc k(1) by (rule le_less_trans)
    then have jlt: "?j < ?nb" using c0 by (simp add: batch_count_less)
    have "concat (map (batch_of ?c msgs) [0..<Suc ?j]) = take (Suc ?j * ?c) msgs"
      by (rule concat_batches_take)
    then have "take (?j * ?c) msgs @ batch_of ?c msgs ?j = take (Suc ?j * ?c) msgs"
      by (simp add: concat_batches_take)
    then have calls: "calls ?tr = calls tr @ take (Suc ?j * ?c) msgs"
      by (simp add: calls_append calls_take_batch_events [OF k(2)] calls_batches_take)
    have calls': "calls ?tr = calls tr @ take (min (Suc ?j * ?c) (length msgs)) msgs"
      unfolding calls by (simp add: min_def)
    have g2: "?j \<le> ?nb" using jlt by simp
    have g4: "isl (Inl err :: thrown + ISmsResponse option list) \<longrightarrow> failFast_of options \<and> ?j < ?nb
                    \<and> length (batch_of ?c msgs ?j) < n"
      using fft jlt k(2) by simp
    have g5: "\<not> isl (Inl err :: thrown + ISmsResponse option list) \<longrightarrow> ?j = ?nb \<and> calls ?tr = calls tr @ msgs"
      by simp
    have g6: "\<not> failFast_of options \<longrightarrow> \<not> isl (Inl err :: thrown + ISmsResponse option list)"
      using fft by simp
    have g7: "min (Suc ?j * ?c) (length msgs) \<le> length msgs" by (rule min.cobounded2)
    show ?thesis
      apply (rule exI [of _ "Inl err"], rule exI [of _ ?tr], rule exI [of _ ?j],
             rule exI [of _ n], rule exI [of _ "min (Suc ?j * ?c) (length msgs)"])
      apply (intro conjI)
            apply (rule k(3))
           apply (rule g2)
          apply (rule refl)
         apply (rule g4)
        apply (rule g5)
       apply (rule g6)
      apply (rule g7)
      apply (rule calls')
      done
  qed
qed

theorem verifyBulk_batches_witness:
  "\<exists>res. verifyBulk sample_core (\<lambda>k. 10 - k)
            [sample_message ''+1'', sample_message ''+2'', sample_message ''+3'']
            \<lparr>opt_concurrency = Some 2, opt_failFast = None\<rparr> []
          = Some (res,
                  [Call (sample_message ''+1''), Call (sample_message ''+2''), Settle 1, Settle 0,
                   Call (sample_message ''+3''), Settle 2])"
proof -
  let ?opts = "\<lparr>opt_concurrency = Some 2, opt_failFast = None\<rparr>"
  let ?msgs = "[sample_message ''+1'', sample_message ''+2'', sample_message ''+3'']"
  let ?rank = "\<lambda>k::nat. 10 - k"
  have h: "opt_concurrency ?opts \<noteq> Some 0" by simp
  have c: "concurrency_of ?opts = 2" by (simp add: concurrency_of_def)
  have ff: "\<not> failFast_of ?opts" by (simp add: failFast_of_def)
  have nb: "batch_count 2 (length ?msgs) = 2" by (simp add: batch_count_def)
  have b0: "batch_events ?rank 2 ?msgs 0
              = [Call (sample_message ''+1''), Call (sample_message ''+2''), Settle 1, Settle 0]"
    by code_simp
  have b1: "batch_events ?rank 2 ?msgs 1 = [Call (sample_message ''+3''), Settle 2]"
    by code_simp
  have b2: "batch_events ?rank 2 ?msgs 2 = []"
    by code_simp
  have upt: "[0..<2] = [0, Suc 0]" by (simp add: upt_rec)
  from verifyBulk_batches [OF h, of ?msgs sample_core ?rank "[]"]
  obtain res tr' d n where r: "verifyBulk sample_core ?rank ?msgs ?opts [] = Some (res, tr')"
    "tr' = [] @ concat (map (batch_events ?rank (concurrency_of ?opts) ?msgs) [0..<d])
              @ take n (batch_events ?rank (concurrency_of ?opts) ?msgs d)"
    "\<not> isl res \<longrightarrow> d = batch_count (concurrency_of ?opts) (length ?msgs)"
    "\<not> failFast_of ?opts \<longrightarrow> \<not> isl res"
    by blast
  from r(3,4) ff have d: "d = 2" unfolding c nb by blast
  have "tr' = [Call (sample_message ''+1''), Call (sample_message ''+2''), Settle 1, Settle 0,
                   Call (sample_message ''+3''), Settle 2]"
    using r(2) unfolding d c upt by (simp add: b0 [simplified] b1 [simplified] b2)
  with r(1) show ?thesis by blast
qed

text \<open>
  Claim C2 as stated fails where it says that each input message is sent exactly once:
  with fail-fast, a batch size of 1 and a first message whose send throws, the call throws
  after the first send and the second message is never sent.
\<close>

theorem verifyBulk_sent_once_counterexample:
  "verifyBulk sample_core id [sample_message '''', sample_message ''+2'']
     \<lparr>opt_concurrency = Some 1, opt_failFast = Some True\<rparr> []
   = Some (Inl (SmsException ''Phone number is required'' ''VALIDATION_ERROR''),
           [Call (sample_message ''''), Settle 0])
   \<and> count_list (calls [Call (sample_message ''''), Settle 0]) (sample_message ''+2'') = 0"
  by code_simp

end
